theory Spec2Isabelle
  imports Main "HOL-Library.Log_Nat"
begin

section \<open>Errors\<close>

text \<open>
  Every exception the service can raise is a value. \<open>HTTPException\<close> carries the status
  code and the detail string of \<^verbatim>\<open>fastapi.HTTPException\<close>; \<open>IntegrityError\<close> is the
  database refusing a commit (primary key or check constraint); \<open>StopIteration\<close> is
  \<^verbatim>\<open>next(...)\<close> on an exhausted generator; \<open>ZeroDivisionError\<close> is float division by zero;
  \<open>TypeError\<close> is \<^verbatim>\<open>json.dumps\<close> on an object that cannot be serialized;
  \<open>StopAsyncIteration\<close> is \<^verbatim>\<open>__anext__\<close> on an asynchronous generator that has finished.
\<close>

datatype error =
    HTTPException nat string
  | IntegrityError
  | StopIteration
  | ZeroDivisionError
  | TypeError
  | StopAsyncIteration

section \<open>Python floats\<close>

text \<open>
  A Python float is an IEEE 754 binary64 number. The finite ones are rationals with a
  53-bit significand, so the model type is \<open>rat\<close> and every arithmetic operation is the
  exact operation followed by \<open>fl\<close>, rounding to the nearest such rational, ties to the
  even significand. The exponent is not bounded: the model is binary64 exactly as long as
  no result is as large as \<open>2 ^ 1024\<close> or (non-zero and) smaller than \<open>2 ^ - 1022\<close>
  in magnitude, which holds for the payout computation on every list of fewer than
  \<open>2 ^ 64\<close> players whose allocations are below \<open>2 ^ 1000\<close> in magnitude.
\<close>

type_synonym pyfloat = rat

definition rhe :: "rat \<Rightarrow> int" where
  \<comment> \<open>round to the nearest integer, ties to even\<close>
  "rhe x =
     (let f = \<lfloor>x\<rfloor>; d = x - of_int f
      in if d < 1 / 2 then f
         else if 1 / 2 < d then f + 1
         else if even f then f else f + 1)"

definition ilog2 :: "rat \<Rightarrow> int" where
  \<comment> \<open>for \<open>0 < x\<close>: the integer \<open>e\<close> with \<open>2 ^ e \<le> x < 2 ^ (e + 1)\<close>\<close>
  "ilog2 x =
     (let (p, q) = quotient_of x; d = bitlen p - bitlen q
      in if 2 powi d \<le> x then d else d - 1)"

definition fl :: "rat \<Rightarrow> pyfloat" where
  \<comment> \<open>round to 53 significant bits, nearest, ties to even\<close>
  "fl x =
     (if x = 0 then 0
      else let u = 2 powi (ilog2 \<bar>x\<bar> - 52)
           in of_int (rhe (x / u)) * u)"

definition float_of_int :: "int \<Rightarrow> pyfloat" where
  "float_of_int i = fl (of_int i)"

definition float_add :: "pyfloat \<Rightarrow> pyfloat \<Rightarrow> pyfloat" where
  "float_add x y = fl (x + y)"

definition float_mul :: "pyfloat \<Rightarrow> pyfloat \<Rightarrow> pyfloat" where
  "float_mul x y = fl (x * y)"

definition float_div :: "pyfloat \<Rightarrow> pyfloat \<Rightarrow> error + pyfloat" where
  "float_div x y = (if y = 0 then Inl ZeroDivisionError else Inr (fl (x / y)))"

definition py_round :: "pyfloat \<Rightarrow> nat \<Rightarrow> pyfloat" where
  \<comment> \<open>\<^verbatim>\<open>round(x, ndigits)\<close> of CPython: the exact value of \<open>x\<close> is rounded half-even to
      \<open>ndigits\<close> decimals, and that decimal is converted back to a float\<close>
  "py_round x ndigits = fl (of_int (rhe (x * 10 ^ ndigits)) / 10 ^ ndigits)"

text \<open>
  \<open>nearest_even y k\<close>: the integer \<open>k\<close> is nearest to \<open>y\<close>, and it is the even one if \<open>y\<close>
  lies halfway between two integers.
\<close>

definition nearest_even :: "rat \<Rightarrow> int \<Rightarrow> bool" where
  "nearest_even y k \<longleftrightarrow> \<bar>of_int k - y\<bar> \<le> 1 / 2 \<and> (\<bar>of_int k - y\<bar> = 1 / 2 \<longrightarrow> even k)"

section \<open>Data model\<close>

type_synonym datetime = nat

definition STATUS_WAITING :: string where "STATUS_WAITING = ''waiting''"
definition STATUS_READY :: string where "STATUS_READY = ''ready''"
definition STATUS_COMPLETED :: string where "STATUS_COMPLETED = ''completed''"

record Room =
  code :: string
  max_players :: int
  created_at :: datetime
  status :: string

text \<open>The primary key \<^verbatim>\<open>Player.id\<close> is the field \<open>id_p\<close>.\<close>

record Player =
  id_p :: string
  room_code :: string
  display_name :: string
  allocation_a :: "int option"
  allocation_b :: "int option"
  payout :: "pyfloat option"
  submitted_at :: "datetime option"
  joined_at :: datetime

record PlayerPayout =
  player_id :: string
  display_name_pp :: string
  payout_pp :: pyfloat

record GameResult =
  total_b_pool :: pyfloat
  boosted_pool :: pyfloat
  players :: "PlayerPayout list"

text \<open>
  The committed state of the database: the two tables, rows in insertion order.
\<close>

record db =
  rooms_table :: "Room list"
  players_table :: "Player list"

definition empty_db :: db where
  "empty_db = \<lparr>rooms_table = [], players_table = []\<rparr>"

subsection \<open>Session primitives\<close>

definition get_Room :: "db \<Rightarrow> string \<Rightarrow> Room option" where
  \<comment> \<open>\<^verbatim>\<open>self.db.get(Room, code)\<close>\<close>
  "get_Room d c = find (\<lambda>r. code r = c) (rooms_table d)"

definition get_Player :: "db \<Rightarrow> string \<Rightarrow> Player option" where
  \<comment> \<open>\<^verbatim>\<open>self.db.get(Player, player_id)\<close>\<close>
  "get_Player d i = find (\<lambda>p. id_p p = i) (players_table d)"

definition players_of :: "db \<Rightarrow> string \<Rightarrow> Player list" where
  \<comment> \<open>\<^verbatim>\<open>select(Player).where(Player.room_code == code)\<close>\<close>
  "players_of d c = filter (\<lambda>p. room_code p = c) (players_table d)"

definition insert_Room :: "db \<Rightarrow> Room \<Rightarrow> error + db" where
  \<comment> \<open>INSERT of a new room; the primary key and the check constraint
      \<^verbatim>\<open>max_players >= 2 AND max_players <= 4\<close> are the database's\<close>
  "insert_Room d r =
     (if code r \<in> set (map code (rooms_table d)) then Inl IntegrityError
      else if \<not> (2 \<le> max_players r \<and> max_players r \<le> 4) then Inl IntegrityError
      else Inr (d\<lparr>rooms_table := rooms_table d @ [r]\<rparr>))"

definition insert_Player :: "db \<Rightarrow> Player \<Rightarrow> error + db" where
  \<comment> \<open>INSERT of a new player; the primary key is the database's\<close>
  "insert_Player d p =
     (if id_p p \<in> set (map id_p (players_table d)) then Inl IntegrityError
      else Inr (d\<lparr>players_table := players_table d @ [p]\<rparr>))"

definition update_Room :: "db \<Rightarrow> Room \<Rightarrow> db" where
  \<comment> \<open>UPDATE of the row with the primary key of \<open>r\<close>\<close>
  "update_Room d r =
     d\<lparr>rooms_table := map (\<lambda>x. if code x = code r then r else x) (rooms_table d)\<rparr>"

definition update_Player :: "db \<Rightarrow> Player \<Rightarrow> db" where
  \<comment> \<open>UPDATE of the row with the primary key of \<open>p\<close>\<close>
  "update_Player d p =
     d\<lparr>players_table := map (\<lambda>x. if id_p x = id_p p then p else x) (players_table d)\<rparr>"

definition delete_Player :: "db \<Rightarrow> Player \<Rightarrow> db" where
  \<comment> \<open>DELETE of the row with the primary key of \<open>p\<close>\<close>
  "delete_Player d p =
     d\<lparr>players_table := filter (\<lambda>x. id_p x \<noteq> id_p p) (players_table d)\<rparr>"

section \<open>PayoutCalculator\<close>

text \<open>The loop \<^verbatim>\<open>for player in players: ... payouts.append(...)\<close>.\<close>

fun payouts_loop :: "Player list \<Rightarrow> pyfloat \<Rightarrow> PlayerPayout list \<Rightarrow> PlayerPayout list" where
  "payouts_loop [] share payouts = payouts"
| "payouts_loop (player # rest) share payouts =
     (let total = py_round (float_add
                    (float_of_int (case allocation_a player of None \<Rightarrow> 0 | Some a \<Rightarrow> a))
                    share) 2
      in payouts_loop rest share
           (payouts @ [\<lparr>player_id = id_p player,
                        display_name_pp = display_name player,
                        payout_pp = total\<rparr>]))"

definition calculate_payouts :: "Player list \<Rightarrow> error + GameResult" where
  "calculate_payouts ps =
     (if ps = [] then Inl (HTTPException 400 ''No players to settle'')
      else if list_ex (\<lambda>p. allocation_a p = None \<or> allocation_b p = None) ps
      then Inl (HTTPException 400 ''Missing allocations'')
      else
        let total_b = sum_list (map (\<lambda>p. case allocation_b p of None \<Rightarrow> 0 | Some b \<Rightarrow> b) ps);
            boosted = py_round (float_mul (float_of_int total_b) (3 / 2)) 2
        in case float_div boosted (float_of_int (int (length ps))) of
             Inl e \<Rightarrow> Inl e
           | Inr share \<Rightarrow>
               Inr \<lparr>total_b_pool = float_of_int total_b,
                    boosted_pool = boosted,
                    players = payouts_loop ps share []\<rparr>)"

section \<open>RoomCoordinator (GameService)\<close>

text \<open>
  Each operation takes the committed database and returns its result, or the exception
  it raised, together with the database it leaves behind. What the source reads from
  its environment is a parameter: the clock (\<open>now\<close>), the fresh \<^verbatim>\<open>uuid4\<close> of a new
  player (\<open>new_id\<close>), and the candidates the random generator draws for a room code.
\<close>

definition get_room :: "db \<Rightarrow> string \<Rightarrow> error + Room" where
  "get_room d c =
     (case get_Room d c of
        None \<Rightarrow> Inl (HTTPException 404 ''Room not found'')
      | Some room \<Rightarrow> Inr room)"

definition count_players :: "db \<Rightarrow> string \<Rightarrow> int" where
  "count_players d c = int (length (players_of d c))"

text \<open>
  \<^verbatim>\<open>_unique_room_code\<close> draws until a code is free. The draws are the list \<open>draws\<close>;
  \<open>None\<close> says that none of them was free, that is, the loop is still running.
\<close>

fun unique_room_code :: "db \<Rightarrow> string list \<Rightarrow> string option" where
  "unique_room_code d [] = None"
| "unique_room_code d (c # draws) =
     (if get_Room d c = None then Some c else unique_room_code d draws)"

definition create_room :: "db \<Rightarrow> int \<Rightarrow> string list \<Rightarrow> datetime \<Rightarrow> ((error + Room) \<times> db) option" where
  "create_room d payload_max_players draws now =
     (case unique_room_code d draws of
        None \<Rightarrow> None
      | Some c \<Rightarrow>
          let room = \<lparr>code = c, max_players = payload_max_players, created_at = now,
                      status = STATUS_WAITING\<rparr>
          in case insert_Room d room of
               Inl e \<Rightarrow> Some (Inl e, d)
             | Inr d1 \<Rightarrow> Some (Inr room, d1))"

definition join_room :: "db \<Rightarrow> string \<Rightarrow> string \<Rightarrow> string \<Rightarrow> datetime \<Rightarrow> (error + Player) \<times> db" where
  "join_room d c name new_id now =
     (case get_room d c of
        Inl e \<Rightarrow> (Inl e, d)
      | Inr room \<Rightarrow>
          let current_players = count_players d c
          in if max_players room \<le> current_players
             then (Inl (HTTPException 400 ''Room is full''), d)
             else
               let player = \<lparr>id_p = new_id, room_code = code room, display_name = name,
                             allocation_a = None, allocation_b = None, payout = None,
                             submitted_at = None, joined_at = now\<rparr>
               in case insert_Player d player of
                    Inl e \<Rightarrow> (Inl e, d)
                  | Inr d1 \<Rightarrow>
                      if current_players + 1 = max_players room
                      then (Inr player, update_Room d1 (room\<lparr>status := STATUS_READY\<rparr>))
                      else (Inr player, d1))"

definition all_players_submitted :: "db \<Rightarrow> Room \<Rightarrow> bool" where
  "all_players_submitted d room =
     (let total = count_players d (code room)
      in if total < max_players room \<or> total < 2 then False
         else int (length (filter (\<lambda>p. submitted_at p \<noteq> None) (players_of d (code room))))
              = total)"

text \<open>
  The loop of \<^verbatim>\<open>_finalize_room\<close> over \<^verbatim>\<open>result.players\<close>: each payout is written to
  the player object of \<open>ps\<close> with its id, and that object is the row committed.
\<close>

fun write_payouts :: "Player list \<Rightarrow> PlayerPayout list \<Rightarrow> db \<Rightarrow> error + db" where
  "write_payouts ps [] d = Inr d"
| "write_payouts ps (po # rest) d =
     (case find (\<lambda>p. id_p p = player_id po) ps of
        None \<Rightarrow> Inl StopIteration
      | Some player \<Rightarrow>
          write_payouts ps rest (update_Player d (player\<lparr>payout := Some (payout_pp po)\<rparr>)))"

definition finalize_room :: "db \<Rightarrow> Room \<Rightarrow> (error + GameResult) \<times> db" where
  "finalize_room d room =
     (let ps = sort_key joined_at (players_of d (code room))
      in case calculate_payouts ps of
           Inl e \<Rightarrow> (Inl e, d)
         | Inr result \<Rightarrow>
             (case write_payouts ps (players result) d of
                Inl e \<Rightarrow> (Inl e, d)
              | Inr d1 \<Rightarrow> (Inr result, update_Room d1 (room\<lparr>status := STATUS_COMPLETED\<rparr>))))"

definition submit_allocation ::
  "db \<Rightarrow> string \<Rightarrow> string \<Rightarrow> int \<Rightarrow> int \<Rightarrow> datetime \<Rightarrow> (error + Player \<times> GameResult option) \<times> db" where
  "submit_allocation d c pid asset_a asset_b now =
     (if asset_a + asset_b \<noteq> 100
      then (Inl (HTTPException 422 ''A + B must equal 100''), d)
      else case get_Player d pid of
        None \<Rightarrow> (Inl (HTTPException 404 ''Player not found''), d)
      | Some player \<Rightarrow>
          if room_code player \<noteq> c then (Inl (HTTPException 404 ''Player not found''), d)
          else case get_room d c of
            Inl e \<Rightarrow> (Inl e, d)
          | Inr room \<Rightarrow>
              let total_players = count_players d c
              in if total_players < 2
                 then (Inl (HTTPException 400 ''Need at least two players''), d)
                 else if submitted_at player \<noteq> None
                 then (Inl (HTTPException 400 ''Allocation already submitted''), d)
                 else
                   let player1 = player\<lparr>allocation_a := Some asset_a,
                                         allocation_b := Some asset_b,
                                         submitted_at := Some now\<rparr>;
                       d1 = update_Player d player1
                   in if all_players_submitted d1 room
                      then (case finalize_room d1 room of
                              (Inl e, d2) \<Rightarrow> (Inl e, d2)
                            | (Inr result, d2) \<Rightarrow>
                                (Inr (case get_Player d2 pid of
                                        None \<Rightarrow> player1 | Some player2 \<Rightarrow> player2,
                                      Some result), d2))
                      else (Inr (player1, None), d1))"

definition leave_room :: "db \<Rightarrow> string \<Rightarrow> string \<Rightarrow> (error + Player \<times> Room) \<times> db" where
  "leave_room d c pid =
     (case get_Player d pid of
        None \<Rightarrow> (Inl (HTTPException 404 ''Player not found''), d)
      | Some player \<Rightarrow>
          if room_code player \<noteq> c then (Inl (HTTPException 404 ''Player not found''), d)
          else case get_room d c of
            Inl e \<Rightarrow> (Inl e, d)
          | Inr room \<Rightarrow>
              if status room = STATUS_COMPLETED
              then (Inl (HTTPException 400 ''Game already completed''), d)
              else
                let d1 = delete_Player d player;
                    remaining = count_players d1 c
                in if remaining < max_players room \<and> status room = STATUS_READY
                   then let room1 = room\<lparr>status := STATUS_WAITING\<rparr>
                        in (Inr (player, room1), update_Room d1 room1)
                   else (Inr (player, room), d1))"

section \<open>Sequences of coordinator operations\<close>

text \<open>
  A caller's request is an operation with its arguments and with what the service reads
  from its environment while serving it. \<open>step\<close> serves one request on the committed
  database, \<open>run\<close> a sequence of them, one after the other; \<open>run\<close> keeps the trace of
  requests and outcomes. The databases reachable from \<open>empty_db\<close> by \<open>run\<close> are the
  states of the system.
\<close>

datatype op =
    CreateRoom int "string list" datetime
  | JoinRoom string string string datetime
  | SubmitAllocation string string int int datetime
  | LeaveRoom string string

datatype outcome =
    Running
  | Created "error + Room"
  | Joined "error + Player"
  | Submitted "error + Player \<times> GameResult option"
  | Left "error + Player \<times> Room"

fun step :: "db \<Rightarrow> op \<Rightarrow> outcome \<times> db" where
  "step d (CreateRoom n draws now) =
     (case create_room d n draws now of
        None \<Rightarrow> (Running, d)
      | Some (r, d1) \<Rightarrow> (Created r, d1))"
| "step d (JoinRoom c name new_id now) =
     (case join_room d c name new_id now of (r, d1) \<Rightarrow> (Joined r, d1))"
| "step d (SubmitAllocation c pid a b now) =
     (case submit_allocation d c pid a b now of (r, d1) \<Rightarrow> (Submitted r, d1))"
| "step d (LeaveRoom c pid) =
     (case leave_room d c pid of (r, d1) \<Rightarrow> (Left r, d1))"

fun run :: "db \<Rightarrow> op list \<Rightarrow> (op \<times> outcome) list \<times> db" where
  "run d [] = ([], d)"
| "run d (x # xs) =
     (case step d x of (r, d1) \<Rightarrow>
        (case run d1 xs of (tr, d2) \<Rightarrow> ((x, r) # tr, d2)))"

text \<open>
  A request finalizes room \<open>c\<close> when it is a submission to \<open>c\<close> that returns a
  \<^verbatim>\<open>GameResult\<close>: \<^verbatim>\<open>_finalize_room\<close> is called from \<^verbatim>\<open>submit_allocation\<close> only, and its
  result is what the submission returns.
\<close>

fun finalizes :: "string \<Rightarrow> op \<times> outcome \<Rightarrow> bool" where
  "finalizes c (SubmitAllocation c1 pid a b now, Submitted (Inr (p, Some result))) = (c1 = c)"
| "finalizes c other = False"

text \<open>
  The requests that the routers pass on to the service have passed the request schemas
  \<^verbatim>\<open>RoomCreate\<close> (\<^verbatim>\<open>max_players\<close> from 2 to 4), \<^verbatim>\<open>PlayerCreate\<close> (a display name of 1 to
  64 characters) and \<^verbatim>\<open>SubmitAllocation\<close> (both assets from 0 to 100).
\<close>

fun valid_request :: "op \<Rightarrow> bool" where
  "valid_request (CreateRoom n draws now) \<longleftrightarrow> 2 \<le> n \<and> n \<le> 4"
| "valid_request (JoinRoom c name new_id now) \<longleftrightarrow> 1 \<le> length name \<and> length name \<le> 64"
| "valid_request (SubmitAllocation c pid a b now) \<longleftrightarrow> 0 \<le> a \<and> a \<le> 100 \<and> 0 \<le> b \<and> b \<le> 100"
| "valid_request (LeaveRoom c pid) \<longleftrightarrow> True"

text \<open>
  The invariant of the reachable databases: primary keys are unique, every player's room
  exists, a submitted player has both allocations and they sum to 100, and every room has
  between 2 and 4 places, no more players than places, status Ready or Completed only
  when it is full, and status Completed only when all its players have submitted.
\<close>

definition room_ok :: "db \<Rightarrow> Room \<Rightarrow> bool" where
  "room_ok d r \<longleftrightarrow>
     2 \<le> max_players r \<and> max_players r \<le> 4 \<and>
     count_players d (code r) \<le> max_players r \<and>
     (status r = STATUS_WAITING \<or> status r = STATUS_READY \<or> status r = STATUS_COMPLETED) \<and>
     (status r = STATUS_READY \<longrightarrow> count_players d (code r) = max_players r) \<and>
     (status r = STATUS_COMPLETED \<longrightarrow>
        count_players d (code r) = max_players r \<and>
        (\<forall>p\<in>set (players_of d (code r)). submitted_at p \<noteq> None))"

definition player_ok :: "db \<Rightarrow> Player \<Rightarrow> bool" where
  "player_ok d p \<longleftrightarrow>
     room_code p \<in> set (map code (rooms_table d)) \<and>
     (submitted_at p \<noteq> None \<longrightarrow>
        (\<exists>a b. allocation_a p = Some a \<and> allocation_b p = Some b \<and> a + b = 100))"

definition invar :: "db \<Rightarrow> bool" where
  "invar d \<longleftrightarrow>
     distinct (map id_p (players_table d)) \<and>
     distinct (map code (rooms_table d)) \<and>
     (\<forall>p\<in>set (players_table d). player_ok d p) \<and>
     (\<forall>r\<in>set (rooms_table d). room_ok d r)"

section \<open>EventBroker (RoomEventBroker)\<close>

text \<open>
  The broker holds \<^verbatim>\<open>_subscribers\<close>, a dictionary from room codes to sets of queues. A
  queue is an object; the model names the queues \<open>0, 1, 2, \<dots>\<close> in the order of their
  creation (\<open>allocated\<close> counts them) and keeps their contents, oldest message first, in
  \<open>queues\<close>. A set of queues is a list without repetitions, in the order of insertion.
  \<^verbatim>\<open>subscribe\<close> is an asynchronous generator with the local variables \<^verbatim>\<open>room_code\<close> and
  \<^verbatim>\<open>queue\<close>; \<open>streams\<close> maps the queue of every generator that has started and has not
  finished to its room code.

  The lock of the broker is held only over statements that do not await, and
  \<^verbatim>\<open>queue.put\<close> on a queue without bound does not wait, so \<^verbatim>\<open>publish\<close>, the start of
  \<^verbatim>\<open>subscribe\<close> up to its first \<^verbatim>\<open>await queue.get()\<close>, each resumption of the generator,
  and its \<^verbatim>\<open>finally\<close> block run without interruption on the event loop: each of them is
  one step of the model.
\<close>

record broker =
  subscribers :: "string \<Rightarrow> nat list option"
  queues :: "nat \<Rightarrow> string list"
  streams :: "nat \<Rightarrow> string option"
  allocated :: nat

definition empty_broker :: broker where
  "empty_broker = \<lparr>subscribers = (\<lambda>c. None), queues = (\<lambda>q. []), streams = (\<lambda>q. None),
                    allocated = 0\<rparr>"

definition registered :: "broker \<Rightarrow> string \<Rightarrow> nat list" where
  \<comment> \<open>\<^verbatim>\<open>list(self._subscribers.get(room_code, set()))\<close>\<close>
  "registered b rcode = (case subscribers b rcode of None \<Rightarrow> [] | Some subs \<Rightarrow> subs)"

definition set_add :: "nat \<Rightarrow> nat list \<Rightarrow> nat list" where
  \<comment> \<open>\<^verbatim>\<open>set.add\<close>\<close>
  "set_add q subs = (if q \<in> set subs then subs else subs @ [q])"

text \<open>The loop \<^verbatim>\<open>for queue in queues: await queue.put(message)\<close>.\<close>

fun put_all :: "nat list \<Rightarrow> string \<Rightarrow> (nat \<Rightarrow> string list) \<Rightarrow> nat \<Rightarrow> string list" where
  "put_all [] message qs = qs"
| "put_all (queue # rest) message qs = put_all rest message (qs(queue := qs queue @ [message]))"

text \<open>
  \<^verbatim>\<open>publish\<close>; \<open>dumps\<close> is \<^verbatim>\<open>json.dumps\<close>, which returns the message or raises.
\<close>

definition publish ::
  "('e \<Rightarrow> error + string) \<Rightarrow> broker \<Rightarrow> string \<Rightarrow> 'e \<Rightarrow> (error + unit) \<times> broker" where
  "publish dumps b rcode event =
     (case dumps event of
        Inl e \<Rightarrow> (Inl e, b)
      | Inr message \<Rightarrow>
          (Inr (), b\<lparr>queues := put_all (registered b rcode) message (queues b)\<rparr>))"

text \<open>
  \<^verbatim>\<open>subscribe\<close>, from the first \<^verbatim>\<open>__anext__\<close> of the generator to its first
  \<^verbatim>\<open>await queue.get()\<close>, where it waits because the new queue is empty: the queue is
  created and added to the set of the room code, which \<^verbatim>\<open>defaultdict\<close> creates if the code
  has none. The model returns the queue as the name of the subscription.
\<close>

definition subscribe :: "broker \<Rightarrow> string \<Rightarrow> nat \<times> broker" where
  "subscribe b rcode =
     (let queue = allocated b
      in (queue,
          b\<lparr>subscribers := (subscribers b)(rcode \<mapsto> set_add queue (registered b rcode)),
            queues := (queues b)(queue := []),
            streams := (streams b)(queue \<mapsto> rcode),
            allocated := allocated b + 1\<rparr>))"

text \<open>
  The generator of subscription \<open>queue\<close> is resumed, \<^verbatim>\<open>payload = await queue.get()\<close> and
  \<^verbatim>\<open>yield payload\<close>: it yields the oldest message of its queue, or keeps waiting
  (\<open>Inr None\<close>) while the queue is empty. A generator that has finished raises.
\<close>

definition anext :: "broker \<Rightarrow> nat \<Rightarrow> (error + string option) \<times> broker" where
  "anext b queue =
     (case streams b queue of
        None \<Rightarrow> (Inl StopAsyncIteration, b)
      | Some rcode \<Rightarrow>
          (case queues b queue of
             [] \<Rightarrow> (Inr None, b)
           | payload # rest \<Rightarrow> (Inr (Some payload), b\<lparr>queues := (queues b)(queue := rest)\<rparr>)))"

text \<open>
  The generator of subscription \<open>queue\<close> is closed or cancelled: its \<^verbatim>\<open>finally\<close> block
  runs, once.
\<close>

definition aclose :: "broker \<Rightarrow> nat \<Rightarrow> broker" where
  "aclose b queue =
     (case streams b queue of
        None \<Rightarrow> b
      | Some rcode \<Rightarrow>
          let b1 = b\<lparr>streams := (streams b)(queue := None)\<rparr>
          in case subscribers b1 rcode of
               None \<Rightarrow> b1
             | Some subs \<Rightarrow>
                 let subs1 = (if subs \<noteq> [] \<and> queue \<in> set subs then removeAll queue subs else subs)
                 in if subs1 = []
                    then b1\<lparr>subscribers := (subscribers b1)(rcode := None)\<rparr>
                    else b1\<lparr>subscribers := (subscribers b1)(rcode \<mapsto> subs1)\<rparr>)"

text \<open>Sequences of broker steps, with their trace.\<close>

datatype 'e broker_op =
    Subscribe string
  | Publish string 'e
  | Next nat
  | Close nat

datatype broker_outcome =
    Subscribed nat
  | Published "error + unit"
  | Yielded "error + string option"
  | Closed

fun broker_step ::
  "('e \<Rightarrow> error + string) \<Rightarrow> broker \<Rightarrow> 'e broker_op \<Rightarrow> broker_outcome \<times> broker" where
  "broker_step dumps b (Subscribe c) = (case subscribe b c of (q, b1) \<Rightarrow> (Subscribed q, b1))"
| "broker_step dumps b (Publish c event) =
     (case publish dumps b c event of (r, b1) \<Rightarrow> (Published r, b1))"
| "broker_step dumps b (Next q) = (case anext b q of (r, b1) \<Rightarrow> (Yielded r, b1))"
| "broker_step dumps b (Close q) = (Closed, aclose b q)"

fun broker_run ::
  "('e \<Rightarrow> error + string) \<Rightarrow> broker \<Rightarrow> 'e broker_op list \<Rightarrow>
     ('e broker_op \<times> broker_outcome) list \<times> broker" where
  "broker_run dumps b [] = ([], b)"
| "broker_run dumps b (x # xs) =
     (case broker_step dumps b x of (r, b1) \<Rightarrow>
        (case broker_run dumps b1 xs of (tr, b2) \<Rightarrow> ((x, r) # tr, b2)))"

text \<open>
  What a trace says: \<open>yielded q tr\<close> are the messages that subscription \<open>q\<close> has yielded,
  \<open>sent dumps c tr\<close> the messages of the \<^verbatim>\<open>publish\<close> calls to room code \<open>c\<close> that have
  returned, both in the order of the trace.
\<close>

fun yielded :: "nat \<Rightarrow> ('e broker_op \<times> broker_outcome) list \<Rightarrow> string list" where
  "yielded q [] = []"
| "yielded q ((Next q1, Yielded (Inr (Some m))) # tr) =
     (if q1 = q then m # yielded q tr else yielded q tr)"
| "yielded q (x # tr) = yielded q tr"

fun sent ::
  "('e \<Rightarrow> error + string) \<Rightarrow> string \<Rightarrow> ('e broker_op \<times> broker_outcome) list \<Rightarrow> string list" where
  "sent dumps c [] = []"
| "sent dumps c ((Publish c1 event, Published (Inr u)) # tr) =
     (case dumps event of
        Inr m \<Rightarrow> (if c1 = c then m # sent dumps c tr else sent dumps c tr)
      | Inl e \<Rightarrow> sent dumps c tr)"
| "sent dumps c (x # tr) = sent dumps c tr"

text \<open>
  The invariant of the broker states: a set of subscribers has no queue twice, and its
  queues belong to running generators of its room code; the queues of the running
  generators have been created.
\<close>

definition broker_ok :: "broker \<Rightarrow> bool" where
  "broker_ok b \<longleftrightarrow>
     (\<forall>c subs. subscribers b c = Some subs \<longrightarrow>
        distinct subs \<and> (\<forall>q\<in>set subs. streams b q = Some c)) \<and>
     (\<forall>q c. streams b q = Some c \<longrightarrow> q < allocated b)"

section \<open>Auxiliary definitions\<close>

text \<open>
  \<open>put_payout po q\<close> is row \<open>q\<close> after the payout record \<open>po\<close> has been written: the
  payout of \<open>po\<close> if \<open>po\<close> is about \<open>q\<close>, and \<open>q\<close> itself otherwise. \<open>new_player\<close> is the
  row that \<^verbatim>\<open>join_room\<close> inserts, \<open>submit_row\<close> the row that \<^verbatim>\<open>submit_allocation\<close>
  commits for row \<open>q\<close>.
\<close>

definition put_payout :: "PlayerPayout \<Rightarrow> Player \<Rightarrow> Player" where
  "put_payout po q = (if id_p q = player_id po then q\<lparr>payout := Some (payout_pp po)\<rparr> else q)"

definition new_player :: "string \<Rightarrow> string \<Rightarrow> string \<Rightarrow> datetime \<Rightarrow> Player" where
  "new_player c name new_id now =
     \<lparr>id_p = new_id, room_code = c, display_name = name,
      allocation_a = None, allocation_b = None, payout = None,
      submitted_at = None, joined_at = now\<rparr>"

definition submit_row :: "int \<Rightarrow> int \<Rightarrow> datetime \<Rightarrow> Player \<Rightarrow> Player" where
  \<comment> \<open>the three assignments of \<^verbatim>\<open>submit_allocation\<close> to the player's row\<close>
  "submit_row asset_a asset_b now q =
     q\<lparr>allocation_a := Some asset_a, allocation_b := Some asset_b, submitted_at := Some now\<rparr>"

section \<open>Example data\<close>

definition alice :: Player where
  "alice = \<lparr>id_p = ''p1'', room_code = ''ROOM01'', display_name = ''Player 1'',
            allocation_a = Some 100, allocation_b = Some 0, payout = None,
            submitted_at = Some 5, joined_at = 1\<rparr>"

definition bob :: Player where
  "bob = \<lparr>id_p = ''p2'', room_code = ''ROOM01'', display_name = ''Player 2'',
          allocation_a = Some 0, allocation_b = Some 100, payout = None,
          submitted_at = Some 6, joined_at = 2\<rparr>"

definition carol :: Player where
  "carol = \<lparr>id_p = ''p3'', room_code = ''ROOM01'', display_name = ''Player 3'',
          allocation_a = None, allocation_b = None, payout = None,
          submitted_at = None, joined_at = 3\<rparr>"

text \<open>
  Four settled players whose payouts are not numbers of 2 decimals before rounding
  (\<open>make_player\<close> as in the test suite).
\<close>

definition make_player :: "string \<Rightarrow> string \<Rightarrow> int \<Rightarrow> int \<Rightarrow> Player" where
  "make_player i name a b =
     \<lparr>id_p = i, room_code = ''ROOM02'', display_name = name,
      allocation_a = Some a, allocation_b = Some b, payout = None,
      submitted_at = Some 9, joined_at = 1\<rparr>"

definition four_down :: "Player list" where
  "four_down = [make_player ''q1'' ''Player 1'' 100 0, make_player ''q2'' ''Player 2'' 100 0,
                make_player ''q3'' ''Player 3'' 100 0, make_player ''q4'' ''Player 4'' 97 3]"

definition four_up :: "Player list" where
  "four_up = [make_player ''q1'' ''Player 1'' 100 0, make_player ''q2'' ''Player 2'' 100 0,
              make_player ''q3'' ''Player 3'' 100 0, make_player ''q4'' ''Player 4'' 99 1]"

text \<open>
  A room for two: it is created, two players join, and both submit. \<open>lobby_db\<close> is the
  database after the joins, \<open>half_db\<close> after the first submission, \<open>done_db\<close> after the
  second.
\<close>

definition lobby_ops :: "op list" where
  "lobby_ops = [CreateRoom 2 [''ROOM01''] 0,
                JoinRoom ''ROOM01'' ''Player 1'' ''p1'' 1,
                JoinRoom ''ROOM01'' ''Player 2'' ''p2'' 2]"

definition half_ops :: "op list" where
  "half_ops = lobby_ops @ [SubmitAllocation ''ROOM01'' ''p1'' 100 0 5]"

definition game_ops :: "op list" where
  "game_ops = half_ops @ [SubmitAllocation ''ROOM01'' ''p2'' 0 100 6]"

definition room01 :: "string \<Rightarrow> Room" where
  "room01 s = \<lparr>code = ''ROOM01'', max_players = 2, created_at = 0, status = s\<rparr>"

definition one_db :: db where
  \<comment> \<open>after the first join, and also after the second player has left again\<close>
  "one_db = \<lparr>rooms_table = [room01 STATUS_WAITING],
             players_table = [new_player ''ROOM01'' ''Player 1'' ''p1'' 1]\<rparr>"

definition lobby_db :: db where
  "lobby_db = \<lparr>rooms_table = [room01 STATUS_READY],
               players_table = [new_player ''ROOM01'' ''Player 1'' ''p1'' 1,
                                new_player ''ROOM01'' ''Player 2'' ''p2'' 2]\<rparr>"

definition half_db :: db where
  "half_db = \<lparr>rooms_table = [room01 STATUS_READY],
              players_table = [alice, new_player ''ROOM01'' ''Player 2'' ''p2'' 2]\<rparr>"

definition done_db :: db where
  "done_db = \<lparr>rooms_table = [room01 STATUS_COMPLETED],
              players_table = [alice\<lparr>payout := Some 175\<rparr>, bob\<lparr>payout := Some 75\<rparr>]\<rparr>"

definition settled :: GameResult where
  "settled = \<lparr>total_b_pool = 100, boosted_pool = 150,
               players = [\<lparr>player_id = ''p1'', display_name_pp = ''Player 1'', payout_pp = 175\<rparr>,
                          \<lparr>player_id = ''p2'', display_name_pp = ''Player 2'', payout_pp = 75\<rparr>]\<rparr>"

text \<open>
  Events are strings here, and \<open>quote\<close> serializes all of them but one. Two listeners
  subscribe to room \<open>ROOM01\<close> and one to room \<open>ROOM02\<close>, three events are published,
  and the first listener reads one message and leaves before the last event.
\<close>

definition quote :: "string \<Rightarrow> error + string" where
  "quote event = (if event = ''cyclic'' then Inl TypeError else Inr (''<'' @ event @ ''>''))"

definition broker_ops :: "string broker_op list" where
  "broker_ops = [Publish ''ROOM01'' ''nobody listens'',
                 Subscribe ''ROOM01'', Subscribe ''ROOM02'', Subscribe ''ROOM01'',
                 Publish ''ROOM01'' ''joined'', Publish ''ROOM02'' ''other'',
                 Publish ''ROOM01'' ''cyclic'', Publish ''ROOM01'' ''submitted'',
                 Next 0, Close 0,
                 Publish ''ROOM01'' ''results'']"

section \<open>Rounding lemmas\<close>

lemma ilog2_lower:
  assumes "0 < x" shows "2 powi (ilog2 x) \<le> x"
proof -
  obtain p q where pq: "quotient_of x = (p, q)" by (cases "quotient_of x")
  have q: "0 < q" using pq quotient_of_denom_pos by blast
  have x: "x = of_int p / of_int q" using pq quotient_of_div by blast
  have p: "0 < p" using assms x q by (simp add: zero_less_divide_iff)
  have bp: "2 ^ nat (bitlen p - 1) \<le> p" using bitlen_bounds[OF p] by simp
  have bq: "q < 2 ^ nat (bitlen q)" using bitlen_bounds[OF q] by simp
  have bp1: "1 \<le> bitlen p" using p by (auto simp: bitlen_alt_def)
  have bq1: "0 \<le> bitlen q" by (rule bitlen_nonneg)
  define a where "a = nat (bitlen p - 1)"
  define b where "b = nat (bitlen q)"
  have ab: "bitlen p - bitlen q - 1 = int a - int b"
    using bp1 bq1 by (simp add: a_def b_def)
  have e0: "(2::rat) powi (int a - int b) = 2 ^ a / 2 ^ b"
    by (simp add: power_int_diff)
  have e: "(2::rat) powi (bitlen p - bitlen q - 1) = 2 ^ nat (bitlen p - 1) / 2 ^ nat (bitlen q)"
    using e0 ab a_def b_def by metis
  have n: "(2::rat) ^ nat (bitlen p - 1) \<le> of_int p"
    using bp by (metis of_int_le_iff of_int_numeral of_int_power)
  have m: "(of_int q :: rat) \<le> 2 ^ nat (bitlen q)"
    using bq by (metis less_imp_le of_int_le_iff of_int_numeral of_int_power)
  have "(2::rat) ^ nat (bitlen p - 1) / 2 ^ nat (bitlen q) \<le> of_int p / of_int q"
    by (rule frac_le) (use n m q p in auto)
  then have "2 powi (bitlen p - bitlen q - 1) \<le> x"
    using e x by simp
  then show ?thesis using pq by (auto simp: ilog2_def Let_def)
qed

lemma rhe_bound: "\<bar>of_int (rhe x) - x\<bar> \<le> 1 / 2"
proof -
  have a: "of_int \<lfloor>x\<rfloor> \<le> x" and b: "x < of_int \<lfloor>x\<rfloor> + 1" by linarith+
  show ?thesis unfolding rhe_def Let_def using a b by (auto simp: abs_le_iff)
qed

lemma fl_error: "\<bar>fl x - x\<bar> \<le> \<bar>x\<bar> / 2 ^ 53"
proof (cases "x = 0")
  case True
  then show ?thesis by (simp add: fl_def)
next
  case False
  define u :: rat where "u = 2 powi (ilog2 \<bar>x\<bar> - 52)"
  have u0: "0 < u" by (simp add: u_def)
  have fx: "fl x = of_int (rhe (x / u)) * u"
    using False by (simp add: fl_def u_def Let_def)
  have "fl x - x = (of_int (rhe (x / u)) - x / u) * u"
    using u0 by (simp add: fx left_diff_distrib)
  then have "\<bar>fl x - x\<bar> = \<bar>of_int (rhe (x / u)) - x / u\<bar> * u"
    using u0 by (simp add: abs_mult)
  also have "\<dots> \<le> (1 / 2) * u"
    using rhe_bound[of "x / u"] u0 by (simp add: mult_right_mono)
  also have "u = 2 powi (ilog2 \<bar>x\<bar>) / 2 ^ 52"
    by (simp add: u_def power_int_diff)
  also have "(1 / 2) * (2 powi (ilog2 \<bar>x\<bar>) / 2 ^ 52) \<le> (1 / 2) * (\<bar>x\<bar> / 2 ^ 52)"
    using ilog2_lower[of "\<bar>x\<bar>"] False by (simp add: divide_right_mono)
  finally show ?thesis by simp
qed

lemma rhe_nearest_even: "nearest_even y (rhe y)"
proof -
  define f where "f = \<lfloor>y\<rfloor>"
  define d where "d = y - of_int f"
  have d: "0 \<le> d" "d < 1" unfolding d_def f_def by linarith+
  have y: "y = of_int f + d" by (simp add: d_def)
  have r: "rhe y = (if d < 1 / 2 then f else if 1 / 2 < d then f + 1
                    else if even f then f else f + 1)"
    by (simp add: rhe_def Let_def f_def d_def)
  consider (lo) "d < 1 / 2" | (hi) "1 / 2 < d" | (tie) "d = 1 / 2" by linarith
  then show ?thesis
  proof cases
    case lo
    then have "rhe y = f" by (simp add: r)
    moreover have "\<bar>of_int f - y\<bar> < 1 / 2" unfolding y using d lo by simp
    ultimately show ?thesis by (simp add: nearest_even_def)
  next
    case hi
    then have "rhe y = f + 1" by (simp add: r)
    moreover have "\<bar>of_int (f + 1) - y\<bar> < 1 / 2" unfolding y using d hi by simp
    ultimately show ?thesis by (simp add: nearest_even_def)
  next
    case tie
    then have r: "rhe y = (if even f then f else f + 1)" by (simp add: r)
    have "\<bar>of_int f - y\<bar> = 1 / 2" "\<bar>of_int (f + 1) - y\<bar> = 1 / 2"
      unfolding y using tie by simp_all
    then show ?thesis unfolding nearest_even_def r by auto
  qed
qed

lemma nearest_even_unique:
  assumes "nearest_even y k" "nearest_even y k'"
  shows "k = k'"
proof (rule ccontr)
  assume ne: "k \<noteq> k'"
  have b: "\<bar>of_int k - y\<bar> \<le> 1 / 2" "\<bar>of_int k' - y\<bar> \<le> 1 / 2"
    using assms by (simp_all add: nearest_even_def)
  then have "\<bar>(of_int k :: rat) - of_int k'\<bar> \<le> 1" by linarith
  then have "\<bar>(of_int (k - k') :: rat)\<bar> \<le> 1" by simp
  then have "\<bar>k - k'\<bar> \<le> 1" by (metis of_int_abs of_int_le_1_iff)
  with ne have k: "k' = k + 1 \<or> k = k' + 1" by linarith
  then have "(of_int k' :: rat) = of_int k + 1 \<or> (of_int k :: rat) = of_int k' + 1" by auto
  then have "\<bar>of_int k - y\<bar> = 1 / 2 \<and> \<bar>of_int k' - y\<bar> = 1 / 2"
    using b by (elim disjE; intro conjI; linarith)
  then have "even k \<and> even k'" using assms by (simp add: nearest_even_def)
  with k show False by auto
qed

lemma py_round_nearest_even:
  "\<exists>k. nearest_even (x * 10 ^ n) k \<and> py_round x n = fl (of_int k / 10 ^ n)"
  using rhe_nearest_even[of "x * 10 ^ n"] by (auto simp: py_round_def)

lemma rhe_of_int: "rhe (of_int z) = z"
  by (simp add: rhe_def Let_def)

lemma fl_exact:
  assumes "\<bar>m\<bar> < 2 ^ 53"
  shows "fl (of_int m / 2 ^ j) = of_int m / 2 ^ j"
proof (cases "m = 0")
  case True
  then show ?thesis by (simp add: fl_def)
next
  case False
  define x :: rat where "x = of_int m / 2 ^ j"
  have x0: "x \<noteq> 0" "0 < \<bar>x\<bar>" using False by (simp_all add: x_def)
  define e where "e = ilog2 \<bar>x\<bar>"
  have lo: "2 powi e \<le> \<bar>x\<bar>" unfolding e_def by (rule ilog2_lower[OF x0(2)])
  have "\<bar>x\<bar> = of_int \<bar>m\<bar> / 2 ^ j" by (simp add: x_def abs_divide)
  also have "\<dots> < 2 ^ 53 / 2 ^ j"
  proof -
    have "(of_int \<bar>m\<bar> :: rat) < of_int (2 ^ 53)" using assms by (simp only: of_int_less_iff)
    then show ?thesis by (simp add: divide_strict_right_mono)
  qed
  also have "\<dots> = 2 powi (53 - int j)" by (simp add: power_int_diff)
  finally have "\<bar>x\<bar> < 2 powi (53 - int j)" .
  then have lt: "(2 :: rat) powi e < 2 powi (53 - int j)" using lo by simp
  have "e < 53 - int j"
  proof (rule ccontr)
    assume "\<not> e < 53 - int j"
    then have "53 - int j \<le> e" by simp
    then have "(2 :: rat) powi (53 - int j) \<le> 2 powi e" by (rule power_int_increasing) simp
    then show False using lt by simp
  qed
  then have "0 \<le> 52 - e - int j" by simp
  then obtain t :: nat where t: "int t = 52 - e - int j"
    using zero_le_imp_eq_int by metis
  define u :: rat where "u = 2 powi (e - 52)"
  have u0: "u \<noteq> 0" by (simp add: u_def)
  have "u * 2 ^ t = 2 powi (e - 52) * 2 powi (int t)" by (simp add: u_def)
  also have "\<dots> = 2 powi (e - 52 + int t)" by (simp add: power_int_add)
  also have "e - 52 + int t = - int j" using t by simp
  also have "(2::rat) powi (- int j) = 1 / 2 ^ j" by (simp add: power_int_minus divide_inverse)
  finally have ut: "u * 2 ^ t = 1 / 2 ^ j" .
  have xe: "x = of_int (m * 2 ^ t) * u"
  proof -
    have "x = of_int m * (u * 2 ^ t)" unfolding ut by (simp add: x_def)
    then show ?thesis by (simp add: mult_ac)
  qed
  then have "x / u = of_int (m * 2 ^ t)" using u0 by simp
  then have "fl x = of_int (m * 2 ^ t) * u"
    using x0(1)
    by (simp add: fl_def Let_def e_def[symmetric] u_def[symmetric] rhe_of_int
             del: of_int_mult of_int_power)
  then show ?thesis using xe by (simp add: x_def)
qed

lemma float_of_int_exact: "\<bar>m\<bar> < 2 ^ 53 \<Longrightarrow> float_of_int m = of_int m"
  using fl_exact[of m 0] by (simp add: float_of_int_def)

text \<open>The pool of an integer total: multiplying by 1.5 and rounding to 2 decimals are exact.\<close>

lemma boosted_exact:
  assumes "\<bar>t\<bar> < 2 ^ 51"
  shows "py_round (float_mul (float_of_int t) (3 / 2)) 2 = of_int t * 3 / 2"
proof -
  have t53: "\<bar>t\<bar> < 2 ^ 53" "\<bar>3 * t\<bar> < 2 ^ 53" using assms by simp_all
  have "float_mul (float_of_int t) (3 / 2) = fl (of_int t * (3 / 2))"
    by (simp only: float_mul_def float_of_int_exact[OF t53(1)])
  also have "of_int t * (3 / 2) = (of_int (3 * t) / 2 ^ 1 :: rat)" by simp
  also have "fl (of_int (3 * t) / 2 ^ 1) = of_int (3 * t) / 2 ^ 1" by (rule fl_exact[OF t53(2)])
  finally have m: "float_mul (float_of_int t) (3 / 2) = of_int (3 * t) / 2 ^ 1" .
  have "of_int (3 * t) / 2 ^ 1 * 10 ^ 2 = (of_int (150 * t) :: rat)" by simp
  then have "rhe (of_int (3 * t) / 2 ^ 1 * 10 ^ 2) = 150 * t" by (simp only: rhe_of_int)
  then have "py_round (float_mul (float_of_int t) (3 / 2)) 2 = fl (of_int (150 * t) / 10 ^ 2)"
    unfolding py_round_def m by simp
  also have "of_int (150 * t) / 10 ^ 2 = (of_int (3 * t) / 2 ^ 1 :: rat)" by simp
  also have "fl (of_int (3 * t) / 2 ^ 1) = of_int (3 * t) / 2 ^ 1" by (rule fl_exact[OF t53(2)])
  finally show ?thesis by simp
qed

section \<open>Properties of the payout calculation\<close>

lemma fl_eq_0_iff: "fl x = 0 \<longleftrightarrow> x = 0"
proof
  assume "fl x = 0"
  then have "\<bar>x\<bar> \<le> \<bar>x\<bar> / 2 ^ 53" using fl_error[of x] by simp
  then show "x = 0" by simp
qed (simp add: fl_def)

lemma float_of_int_eq_0_iff: "float_of_int i = 0 \<longleftrightarrow> i = 0"
  by (simp add: float_of_int_def fl_eq_0_iff)

lemma payouts_loop_append:
  "payouts_loop ps share acc =
     acc @ map (\<lambda>p. \<lparr>player_id = id_p p, display_name_pp = display_name p,
                     payout_pp = py_round (float_add (float_of_int
                        (case allocation_a p of None \<Rightarrow> 0 | Some a \<Rightarrow> a)) share) 2\<rparr>) ps"
  by (induction ps arbitrary: acc) (simp_all add: Let_def)

text \<open>
  C8. \<^verbatim>\<open>calculate_payouts\<close> raises exactly when the list is empty or some player in it
  has a null \<open>allocation_a\<close> or a null \<open>allocation_b\<close>. Both exceptions are the 400 of its
  two guards (the failure the spec files under Validation): ``No players to settle'' for
  the empty list, ``Missing allocations'' otherwise. An exception is the whole outcome, so
  no result is returned and no payout is computed; on every other list no exception of
  any kind is raised.
\<close>

theorem calculate_payouts_fails_iff:
  "(calculate_payouts ps = Inl (HTTPException 400 ''No players to settle'') \<longleftrightarrow> ps = []) \<and>
   (calculate_payouts ps = Inl (HTTPException 400 ''Missing allocations'') \<longleftrightarrow>
      ps \<noteq> [] \<and> (\<exists>p\<in>set ps. allocation_a p = None \<or> allocation_b p = None)) \<and>
   ((\<exists>e. calculate_payouts ps = Inl e) \<longleftrightarrow>
      ps = [] \<or> (\<exists>p\<in>set ps. allocation_a p = None \<or> allocation_b p = None))"
  by (auto simp: calculate_payouts_def list_ex_iff float_div_def float_of_int_eq_0_iff Let_def)

text \<open>The empty list, a list with a player who has not submitted, and a settled pair.\<close>

theorem calculate_payouts_fails_iff_witness:
  "calculate_payouts [] = Inl (HTTPException 400 ''No players to settle'') \<and>
   calculate_payouts [alice, carol] = Inl (HTTPException 400 ''Missing allocations'') \<and>
   (\<nexists>e. calculate_payouts [alice, bob] = Inl e)"
  using calculate_payouts_fails_iff [of "[]"] calculate_payouts_fails_iff [of "[alice, carol]"]
    calculate_payouts_fails_iff [of "[alice, bob]"]
  by (simp add: alice_def bob_def carol_def)

text \<open>
  C1. On a non-empty list whose players all have both allocations set,
  \<^verbatim>\<open>calculate_payouts\<close> returns a result \<open>r\<close>. Its \<open>total_b_pool\<close> is the integer sum \<open>t\<close>
  of the \<open>allocation_b\<close>, as a float. Its \<open>boosted_pool\<close> is the float product of that and
  1.5, rounded to 2 decimals: the float nearest to \<open>k / 100\<close>, where \<open>k\<close> is the integer
  nearest to 100 times the product, the even one if two are equally near (there is only
  one such \<open>k\<close>, lemma \<open>nearest_even_unique\<close>); this is \<open>py_round\<close>, Python's \<^verbatim>\<open>round\<close>.
  For \<open>\<bar>t\<bar> < 2 ^ 51\<close> none of these steps rounds anything off: \<open>total_b_pool\<close> is \<open>t\<close> and
  \<open>boosted_pool\<close> is \<open>1.5 * t\<close>, exactly. The share is the float quotient of
  \<open>boosted_pool\<close> and the number of players (the division does not fail). \<open>players r\<close>
  holds one record per player, in the order of the input, with the player's id and name,
  and the payout is the float sum of \<open>allocation_a\<close> and the share, rounded to 2 decimals
  in the same sense.
\<close>

theorem calculate_payouts_result:
  assumes "ps \<noteq> []"
    and "\<forall>p\<in>set ps. allocation_a p \<noteq> None \<and> allocation_b p \<noteq> None"
  shows "\<exists>r share.
           calculate_payouts ps = Inr r \<and>
           total_b_pool r = float_of_int (\<Sum>p\<leftarrow>ps. the (allocation_b p)) \<and>
           boosted_pool r =
             py_round (float_mul (float_of_int (\<Sum>p\<leftarrow>ps. the (allocation_b p))) (3 / 2)) 2 \<and>
           (\<exists>k. nearest_even
                  (float_mul (float_of_int (\<Sum>p\<leftarrow>ps. the (allocation_b p))) (3 / 2) * 100) k \<and>
                boosted_pool r = fl (of_int k / 100)) \<and>
           (\<bar>\<Sum>p\<leftarrow>ps. the (allocation_b p)\<bar> < 2 ^ 51 \<longrightarrow>
              total_b_pool r = of_int (\<Sum>p\<leftarrow>ps. the (allocation_b p)) \<and>
              boosted_pool r = of_int (\<Sum>p\<leftarrow>ps. the (allocation_b p)) * 3 / 2) \<and>
           float_div (boosted_pool r) (float_of_int (int (length ps))) = Inr share \<and>
           share = fl (boosted_pool r / float_of_int (int (length ps))) \<and>
           players r =
             map (\<lambda>p. \<lparr>player_id = id_p p, display_name_pp = display_name p,
                        payout_pp = py_round (float_add (float_of_int (the (allocation_a p))) share) 2\<rparr>)
                 ps \<and>
           length (players r) = length ps \<and>
           (\<forall>i<length ps.
              player_id (players r ! i) = id_p (ps ! i) \<and>
              display_name_pp (players r ! i) = display_name (ps ! i) \<and>
              (\<exists>k. nearest_even
                     (float_add (float_of_int (the (allocation_a (ps ! i)))) share * 100) k \<and>
                   payout_pp (players r ! i) = fl (of_int k / 100)))"
proof -
  let ?t = "\<Sum>p\<leftarrow>ps. the (allocation_b p)"
  let ?boosted = "py_round (float_mul (float_of_int ?t) (3 / 2)) 2"
  let ?share = "fl (?boosted / float_of_int (int (length ps)))"
  let ?rec = "\<lambda>p. \<lparr>player_id = id_p p, display_name_pp = display_name p,
                     payout_pp = py_round (float_add (float_of_int (the (allocation_a p))) ?share) 2\<rparr>"
  let ?r = "\<lparr>total_b_pool = float_of_int ?t, boosted_pool = ?boosted, players = map ?rec ps\<rparr>"
  have nz: "float_of_int (int (length ps)) \<noteq> 0"
    using assms(1) by (simp add: float_of_int_eq_0_iff)
  have b: "map (\<lambda>p. case allocation_b p of None \<Rightarrow> 0 | Some b \<Rightarrow> b) ps = map (\<lambda>p. the (allocation_b p)) ps"
    using assms(2) by (intro map_cong) auto
  have a: "map (\<lambda>p. \<lparr>player_id = id_p p, display_name_pp = display_name p,
                     payout_pp = py_round (float_add (float_of_int
                        (case allocation_a p of None \<Rightarrow> 0 | Some a \<Rightarrow> a)) s) 2\<rparr>) ps
         = map (\<lambda>p. \<lparr>player_id = id_p p, display_name_pp = display_name p,
                        payout_pp = py_round (float_add (float_of_int (the (allocation_a p))) s) 2\<rparr>) ps"
    for s using assms(2) by (intro map_cong) auto
  have ex: "\<not> list_ex (\<lambda>p. allocation_a p = None \<or> allocation_b p = None) ps"
    using assms(2) by (auto simp: list_ex_iff)
  define r where "r = ?r"
  have sel: "total_b_pool r = float_of_int ?t" "boosted_pool r = ?boosted"
    "players r = map ?rec ps"
    by (simp_all add: r_def)
  have f1: "calculate_payouts ps = Inr r"
    unfolding r_def using assms(1) nz ex
    by (simp add: calculate_payouts_def float_div_def Let_def payouts_loop_append a b)
  have f2: "total_b_pool r = float_of_int ?t" by (rule sel(1))
  have f3: "boosted_pool r = ?boosted" by (rule sel(2))
  have f4: "\<exists>k. nearest_even (float_mul (float_of_int ?t) (3 / 2) * 100) k \<and>
                boosted_pool r = fl (of_int k / 100)"
    unfolding sel(2) using py_round_nearest_even[of "float_mul (float_of_int ?t) (3 / 2)" 2] by simp
  have f5: "\<bar>?t\<bar> < 2 ^ 51 \<longrightarrow>
              total_b_pool r = of_int ?t \<and> boosted_pool r = of_int ?t * 3 / 2"
  proof
    assume t: "\<bar>?t\<bar> < 2 ^ 51"
    then have "\<bar>?t\<bar> < 2 ^ 53" by simp
    then have "float_of_int ?t = of_int ?t" by (rule float_of_int_exact)
    moreover have "?boosted = of_int ?t * 3 / 2" using t by (rule boosted_exact)
    ultimately show "total_b_pool r = of_int ?t \<and> boosted_pool r = of_int ?t * 3 / 2"
      unfolding sel by simp
  qed
  have f6: "float_div (boosted_pool r) (float_of_int (int (length ps))) = Inr ?share"
    unfolding sel(2) using nz by (simp add: float_div_def)
  have f8: "players r = map ?rec ps" by (rule sel(3))
  have f9: "length (players r) = length ps" unfolding sel(3) by simp
  have f10: "\<forall>i<length ps.
              player_id (players r ! i) = id_p (ps ! i) \<and>
              display_name_pp (players r ! i) = display_name (ps ! i) \<and>
              (\<exists>k. nearest_even
                     (float_add (float_of_int (the (allocation_a (ps ! i)))) ?share * 100) k \<and>
                   payout_pp (players r ! i) = fl (of_int k / 100))"
  proof (intro allI impI)
    fix i assume "i < length ps"
    then show "player_id (players r ! i) = id_p (ps ! i) \<and>
              display_name_pp (players r ! i) = display_name (ps ! i) \<and>
              (\<exists>k. nearest_even
                     (float_add (float_of_int (the (allocation_a (ps ! i)))) ?share * 100) k \<and>
                   payout_pp (players r ! i) = fl (of_int k / 100))"
      unfolding sel(3)
      using py_round_nearest_even[of "float_add (float_of_int (the (allocation_a (ps ! i)))) ?share" 2]
      by simp
  qed
  have f7: "?share = fl (boosted_pool r / float_of_int (int (length ps)))" unfolding sel(2) ..
  show ?thesis
    apply (insert f1 f2 f4 f5 f6 f9 f10)
    apply (rule exI[of _ r], rule exI[of _ ?share])
    apply (intro conjI)
             apply assumption
            apply assumption
           apply (rule f3)
          apply assumption
         apply assumption
        apply assumption
       apply (rule f7)
      apply (rule f8)
     apply assumption
    apply assumption
    done
qed

text \<open>
  Four players with 3 and with 1 in asset B in all. The shares are 1.125 and 0.375, and
  each payout lies halfway between two numbers of 2 decimals: 101.125 becomes 101.12 and
  98.125 becomes 98.12, 100.375 becomes 100.38 and 99.375 becomes 99.38.
\<close>

theorem calculate_payouts_result_witness:
  "(\<exists>r. calculate_payouts four_down = Inr r \<and> total_b_pool r = 3 \<and> boosted_pool r = 9 / 2 \<and>
        map player_id (players r) = [''q1'', ''q2'', ''q3'', ''q4''] \<and>
        map payout_pp (players r) =
          [fl (10112 / 100), fl (10112 / 100), fl (10112 / 100), fl (9812 / 100)]) \<and>
   (\<exists>r. calculate_payouts four_up = Inr r \<and> total_b_pool r = 1 \<and> boosted_pool r = 3 / 2 \<and>
        map payout_pp (players r) =
          [fl (10038 / 100), fl (10038 / 100), fl (10038 / 100), fl (9938 / 100)]) \<and>
   float_add (float_of_int 100) (fl ((9 / 2) / float_of_int 4)) = 809 / 8 \<and>
   nearest_even (809 / 8 * 100) 10112 \<and>
   float_add (float_of_int 100) (fl ((3 / 2) / float_of_int 4)) = 803 / 8 \<and>
   nearest_even (803 / 8 * 100) 10038 \<and>
   fl (10112 / 100) = 889460926405673 / 8796093022208 \<and>
   fl (9812 / 100) = 863072647339049 / 8796093022208 \<and>
   fl (10038 / 100) = 882951817569239 / 8796093022208 \<and>
   fl (9938 / 100) = 874155724547031 / 8796093022208"
proof -
  have h1: "four_down \<noteq> []" "four_up \<noteq> []" by (simp_all add: four_down_def four_up_def)
  have h2: "\<forall>p\<in>set four_down. allocation_a p \<noteq> None \<and> allocation_b p \<noteq> None"
    "\<forall>p\<in>set four_up. allocation_a p \<noteq> None \<and> allocation_b p \<noteq> None"
    by (simp_all add: four_down_def four_up_def make_player_def)
  have v: "float_add (float_of_int 100) (fl ((9 / 2) / float_of_int 4)) = 809 / 8"
    "nearest_even (809 / 8 * 100) 10112"
    "float_add (float_of_int 100) (fl ((3 / 2) / float_of_int 4)) = 803 / 8"
    "nearest_even (803 / 8 * 100) 10038"
    "fl (10112 / 100) = 889460926405673 / 8796093022208"
    "fl (9812 / 100) = 863072647339049 / 8796093022208"
    "fl (10038 / 100) = 882951817569239 / 8796093022208"
    "fl (9938 / 100) = 874155724547031 / 8796093022208"
    by code_simp+
  have d: "calculate_payouts four_down =
             Inr \<lparr>total_b_pool = 3, boosted_pool = 9 / 2,
                  players = [\<lparr>player_id = ''q1'', display_name_pp = ''Player 1'',
                                payout_pp = 889460926405673 / 8796093022208\<rparr>,
                             \<lparr>player_id = ''q2'', display_name_pp = ''Player 2'',
                                payout_pp = 889460926405673 / 8796093022208\<rparr>,
                             \<lparr>player_id = ''q3'', display_name_pp = ''Player 3'',
                                payout_pp = 889460926405673 / 8796093022208\<rparr>,
                             \<lparr>player_id = ''q4'', display_name_pp = ''Player 4'',
                                payout_pp = 863072647339049 / 8796093022208\<rparr>]\<rparr>"
    by code_simp
  have u: "calculate_payouts four_up =
             Inr \<lparr>total_b_pool = 1, boosted_pool = 3 / 2,
                  players = [\<lparr>player_id = ''q1'', display_name_pp = ''Player 1'',
                                payout_pp = 882951817569239 / 8796093022208\<rparr>,
                             \<lparr>player_id = ''q2'', display_name_pp = ''Player 2'',
                                payout_pp = 882951817569239 / 8796093022208\<rparr>,
                             \<lparr>player_id = ''q3'', display_name_pp = ''Player 3'',
                                payout_pp = 882951817569239 / 8796093022208\<rparr>,
                             \<lparr>player_id = ''q4'', display_name_pp = ''Player 4'',
                                payout_pp = 874155724547031 / 8796093022208\<rparr>]\<rparr>"
    by code_simp
  from calculate_payouts_result [OF h1(1) h2(1)]
  obtain r1 where r1: "calculate_payouts four_down = Inr r1" by blast
  from calculate_payouts_result [OF h1(2) h2(2)]
  obtain r2 where r2: "calculate_payouts four_up = Inr r2" by blast
  have e1: "r1 = \<lparr>total_b_pool = 3, boosted_pool = 9 / 2,
                  players = [\<lparr>player_id = ''q1'', display_name_pp = ''Player 1'',
                                payout_pp = 889460926405673 / 8796093022208\<rparr>,
                             \<lparr>player_id = ''q2'', display_name_pp = ''Player 2'',
                                payout_pp = 889460926405673 / 8796093022208\<rparr>,
                             \<lparr>player_id = ''q3'', display_name_pp = ''Player 3'',
                                payout_pp = 889460926405673 / 8796093022208\<rparr>,
                             \<lparr>player_id = ''q4'', display_name_pp = ''Player 4'',
                                payout_pp = 863072647339049 / 8796093022208\<rparr>]\<rparr>"
    using r1 d by simp
  have e2: "r2 = \<lparr>total_b_pool = 1, boosted_pool = 3 / 2,
                  players = [\<lparr>player_id = ''q1'', display_name_pp = ''Player 1'',
                                payout_pp = 882951817569239 / 8796093022208\<rparr>,
                             \<lparr>player_id = ''q2'', display_name_pp = ''Player 2'',
                                payout_pp = 882951817569239 / 8796093022208\<rparr>,
                             \<lparr>player_id = ''q3'', display_name_pp = ''Player 3'',
                                payout_pp = 882951817569239 / 8796093022208\<rparr>,
                             \<lparr>player_id = ''q4'', display_name_pp = ''Player 4'',
                                payout_pp = 874155724547031 / 8796093022208\<rparr>]\<rparr>"
    using r2 u by simp
  have g1: "total_b_pool r1 = 3 \<and> boosted_pool r1 = 9 / 2 \<and>
        map player_id (players r1) = [''q1'', ''q2'', ''q3'', ''q4''] \<and>
        map payout_pp (players r1) =
          [fl (10112 / 100), fl (10112 / 100), fl (10112 / 100), fl (9812 / 100)]"
    unfolding e1 v(5,6) by simp
  have g2: "total_b_pool r2 = 1 \<and> boosted_pool r2 = 3 / 2 \<and>
        map payout_pp (players r2) =
          [fl (10038 / 100), fl (10038 / 100), fl (10038 / 100), fl (9938 / 100)]"
    unfolding e2 v(7,8) by simp
  have A: "\<exists>r. calculate_payouts four_down = Inr r \<and> total_b_pool r = 3 \<and> boosted_pool r = 9 / 2 \<and>
        map player_id (players r) = [''q1'', ''q2'', ''q3'', ''q4''] \<and>
        map payout_pp (players r) =
          [fl (10112 / 100), fl (10112 / 100), fl (10112 / 100), fl (9812 / 100)]"
    by (rule exI[of _ r1], rule conjI, rule r1, rule g1)
  have B: "\<exists>r. calculate_payouts four_up = Inr r \<and> total_b_pool r = 1 \<and> boosted_pool r = 3 / 2 \<and>
        map payout_pp (players r) =
          [fl (10038 / 100), fl (10038 / 100), fl (10038 / 100), fl (9938 / 100)]"
    by (rule exI[of _ r2], rule conjI, rule r2, rule g2)
  show ?thesis by (intro conjI) (rule A B v)+
qed

section \<open>Properties of SubmitAllocation\<close>

text \<open>
  C10. The allocation-sum check is the first statement of \<^verbatim>\<open>submit_allocation\<close>: whenever
  \<open>asset_a + asset_b \<noteq> 100\<close> the call raises the 422 exception (the spec's Validation
  failure) and leaves the database as it was, whatever the room code and the player id
  are, so also when the player or the room does not exist.
\<close>

theorem submit_allocation_sum_check_first:
  "asset_a + asset_b \<noteq> 100 \<Longrightarrow>
     submit_allocation d c pid asset_a asset_b now =
       (Inl (HTTPException 422 ''A + B must equal 100''), d)"
  by (simp add: submit_allocation_def)

theorem submit_allocation_sum_check_first_witness:
  "get_Player empty_db ''nobody'' = None \<and> get_Room empty_db ''NOROOM'' = None \<and>
   submit_allocation empty_db ''NOROOM'' ''nobody'' 60 50 7 =
     (Inl (HTTPException 422 ''A + B must equal 100''), empty_db)"
  using submit_allocation_sum_check_first [of 60 50 empty_db "''NOROOM''" "''nobody''" 7]
  by (simp add: get_Player_def get_Room_def empty_db_def)

section \<open>The database under the operations\<close>

subsection \<open>Lookups\<close>

lemma get_Room_Some: "get_Room d c = Some r \<Longrightarrow> r \<in> set (rooms_table d) \<and> code r = c"
  by (auto simp: get_Room_def find_Some_iff)

lemma get_Room_None: "get_Room d c = None \<longleftrightarrow> c \<notin> set (map code (rooms_table d))"
  by (auto simp: get_Room_def find_None_iff)

lemma get_Player_Some: "get_Player d i = Some p \<Longrightarrow> p \<in> set (players_table d) \<and> id_p p = i"
  by (auto simp: get_Player_def find_Some_iff)

lemma get_Player_None: "get_Player d i = None \<longleftrightarrow> i \<notin> set (map id_p (players_table d))"
  by (auto simp: get_Player_def find_None_iff)

lemma find_distinct_key:
  "distinct (map f xs) \<Longrightarrow> x \<in> set xs \<Longrightarrow> find (\<lambda>y. f y = f x) xs = Some x"
  by (induction xs) (auto simp: image_iff)

lemma key_inj: "distinct (map f xs) \<Longrightarrow> x \<in> set xs \<Longrightarrow> y \<in> set xs \<Longrightarrow> f x = f y \<Longrightarrow> x = y"
  by (meson distinct_map inj_onD)

lemma get_Room_member:
  "distinct (map code (rooms_table d)) \<Longrightarrow> r \<in> set (rooms_table d) \<Longrightarrow> get_Room d (code r) = Some r"
  by (simp add: get_Room_def find_distinct_key)

lemma get_Player_member:
  "distinct (map id_p (players_table d)) \<Longrightarrow> p \<in> set (players_table d) \<Longrightarrow> get_Player d (id_p p) = Some p"
  by (simp add: get_Player_def find_distinct_key)

subsection \<open>Writing the payouts\<close>

lemma put_payout_same:
  "id_p q = player_id po \<Longrightarrow> put_payout po q = q\<lparr>payout := Some (payout_pp po)\<rparr>"
  by (simp add: put_payout_def)

lemma put_payout_other: "id_p q \<noteq> player_id po \<Longrightarrow> put_payout po q = q"
  by (simp add: put_payout_def)

lemma id_p_put_payout [simp]: "id_p (put_payout po q) = id_p q"
  by (simp add: put_payout_def)

lemma fold_put_payout_frame:
  "id_p (fold put_payout pos q) = id_p q \<and> room_code (fold put_payout pos q) = room_code q \<and>
   display_name (fold put_payout pos q) = display_name q \<and>
   allocation_a (fold put_payout pos q) = allocation_a q \<and>
   allocation_b (fold put_payout pos q) = allocation_b q \<and>
   submitted_at (fold put_payout pos q) = submitted_at q \<and>
   joined_at (fold put_payout pos q) = joined_at q"
  by (induction pos arbitrary: q) (auto simp: put_payout_def)

lemma write_payouts_table:
  assumes "write_payouts ps pos d = Inr d1"
    and "\<forall>q\<in>set (players_table d). \<forall>p\<in>set ps. id_p p = id_p q \<longrightarrow> p\<lparr>payout := payout q\<rparr> = q"
  shows "rooms_table d1 = rooms_table d \<and>
         players_table d1 = map (fold put_payout pos) (players_table d)"
  using assms
proof (induction pos arbitrary: d)
  case Nil
  then show ?case by simp
next
  case (Cons po rest)
  from Cons.prems(1) obtain player where f: "find (\<lambda>p. id_p p = player_id po) ps = Some player"
    and w: "write_payouts ps rest (update_Player d (player\<lparr>payout := Some (payout_pp po)\<rparr>)) = Inr d1"
    by (auto split: option.splits)
  let ?d = "update_Player d (player\<lparr>payout := Some (payout_pp po)\<rparr>)"
  have pl: "player \<in> set ps" "id_p player = player_id po"
    using f by (auto simp: find_Some_iff)
  have row: "q\<lparr>payout := x\<rparr> = p\<lparr>payout := x\<rparr>"
    if "q \<in> set (players_table d)" "p \<in> set ps" "id_p p = id_p q" for p q x
  proof -
    have "p\<lparr>payout := payout q\<rparr> = q" using Cons.prems(2) that by blast
    then have "q\<lparr>payout := x\<rparr> = (p\<lparr>payout := payout q\<rparr>)\<lparr>payout := x\<rparr>" by simp
    then show ?thesis by simp
  qed
  have t: "players_table ?d = map (put_payout po) (players_table d)"
    unfolding update_Player_def using pl row[of _ player] by (auto intro!: map_cong simp: put_payout_def)
  have r: "rooms_table ?d = rooms_table d" by (simp add: update_Player_def)
  have h: "\<forall>q\<in>set (players_table ?d). \<forall>p\<in>set ps. id_p p = id_p q \<longrightarrow> p\<lparr>payout := payout q\<rparr> = q"
    unfolding t using row by (auto simp: put_payout_def split: if_splits) (metis Cons.prems(2))+
  from Cons.IH[OF w h] show ?case by (simp add: t r)
qed

lemma write_payouts_succeeds:
  "\<forall>po\<in>set pos. \<exists>p\<in>set ps. id_p p = player_id po \<Longrightarrow> \<exists>d1. write_payouts ps pos d = Inr d1"
proof (induction pos arbitrary: d)
  case Nil
  then show ?case by simp
next
  case (Cons po rest)
  then obtain p where "p \<in> set ps" "id_p p = player_id po" by auto
  then have "find (\<lambda>p. id_p p = player_id po) ps \<noteq> None" by (auto simp: find_None_iff)
  then show ?case using Cons by auto
qed

lemma calculate_payouts_eq:
  assumes "ps \<noteq> []"
    and "\<forall>p\<in>set ps. allocation_a p \<noteq> None \<and> allocation_b p \<noteq> None"
  shows "calculate_payouts ps =
     (let total_b = (\<Sum>p\<leftarrow>ps. the (allocation_b p));
          boosted = py_round (float_mul (float_of_int total_b) (3 / 2)) 2;
          share = fl (boosted / float_of_int (int (length ps)))
      in Inr \<lparr>total_b_pool = float_of_int total_b, boosted_pool = boosted,
              players = map (\<lambda>p. \<lparr>player_id = id_p p, display_name_pp = display_name p,
                        payout_pp = py_round (float_add (float_of_int (the (allocation_a p))) share) 2\<rparr>)
                 ps\<rparr>)"
proof -
  have nz: "float_of_int (int (length ps)) \<noteq> 0"
    using assms(1) by (simp add: float_of_int_eq_0_iff)
  have b: "map (\<lambda>p. case allocation_b p of None \<Rightarrow> 0 | Some b \<Rightarrow> b) ps = map (\<lambda>p. the (allocation_b p)) ps"
    using assms(2) by (intro map_cong) auto
  have a: "map (\<lambda>p. \<lparr>player_id = id_p p, display_name_pp = display_name p,
                     payout_pp = py_round (float_add (float_of_int
                        (case allocation_a p of None \<Rightarrow> 0 | Some a \<Rightarrow> a)) s) 2\<rparr>) ps
         = map (\<lambda>p. \<lparr>player_id = id_p p, display_name_pp = display_name p,
                        payout_pp = py_round (float_add (float_of_int (the (allocation_a p))) s) 2\<rparr>) ps"
    for s using assms(2) by (intro map_cong) auto
  have ex: "\<not> list_ex (\<lambda>p. allocation_a p = None \<or> allocation_b p = None) ps"
    using assms(2) by (auto simp: list_ex_iff)
  show ?thesis
    using assms(1) nz ex
    by (simp add: calculate_payouts_def float_div_def Let_def payouts_loop_append a b)
qed

lemma calculate_payouts_ids:
  assumes "ps \<noteq> []"
    and "\<forall>p\<in>set ps. allocation_a p \<noteq> None \<and> allocation_b p \<noteq> None"
  shows "\<exists>result. calculate_payouts ps = Inr result \<and> map player_id (players result) = map id_p ps"
  using calculate_payouts_eq[OF assms] by (simp add: Let_def o_def)

lemma fold_put_payout_other:
  "id_p q \<notin> set (map player_id pos) \<Longrightarrow> fold put_payout pos q = q"
  by (induction pos arbitrary: q) (auto simp: put_payout_def)

lemma fold_put_payout_hit:
  "distinct (map player_id pos) \<Longrightarrow> po \<in> set pos \<Longrightarrow> player_id po = id_p q \<Longrightarrow>
     fold put_payout pos q = q\<lparr>payout := Some (payout_pp po)\<rparr>"
proof (induction pos arbitrary: q)
  case Nil
  then show ?case by simp
next
  case (Cons a pos)
  show ?case
  proof (cases "a = po")
    case True
    then have "id_p q \<notin> set (map player_id pos)" using Cons.prems by auto
    then have "id_p (q\<lparr>payout := Some (payout_pp po)\<rparr>) \<notin> set (map player_id pos)" by simp
    from fold_put_payout_other[OF this] show ?thesis using True Cons.prems by (simp add: put_payout_same)
  next
    case False
    then have "po \<in> set pos" "player_id a \<noteq> id_p q" using Cons.prems by (auto simp: image_iff)
    then show ?thesis using Cons by (simp add: put_payout_other)
  qed
qed

lemma finalize_room_ok:
  assumes dist: "distinct (map id_p (players_table d))"
    and ne: "players_of d (code room) \<noteq> []"
    and al: "\<forall>p\<in>set (players_of d (code room)). allocation_a p \<noteq> None \<and> allocation_b p \<noteq> None"
  shows "\<exists>result.
           calculate_payouts (sort_key joined_at (players_of d (code room))) = Inr result \<and>
           map player_id (players result) = map id_p (sort_key joined_at (players_of d (code room))) \<and>
           finalize_room d room =
             (Inr result,
              \<lparr>rooms_table = map (\<lambda>x. if code x = code room then room\<lparr>status := STATUS_COMPLETED\<rparr> else x)
                                 (rooms_table d),
               players_table = map (fold put_payout (players result)) (players_table d)\<rparr>)"
proof -
  let ?ps = "sort_key joined_at (players_of d (code room))"
  have s: "set ?ps = set (players_of d (code room))" by simp
  have ne': "?ps \<noteq> []" using ne by (metis length_sort length_0_conv)
  have al': "\<forall>p\<in>set ?ps. allocation_a p \<noteq> None \<and> allocation_b p \<noteq> None" using al s by simp
  obtain result where r: "calculate_payouts ?ps = Inr result"
    and ids: "map player_id (players result) = map id_p ?ps"
    using calculate_payouts_ids[OF ne' al'] by blast
  have sub: "set ?ps \<subseteq> set (players_table d)" by (auto simp: players_of_def)
  have found: "\<forall>po\<in>set (players result). \<exists>p\<in>set ?ps. id_p p = player_id po"
  proof
    fix po assume "po \<in> set (players result)"
    then have "player_id po \<in> set (map id_p ?ps)" using ids by (metis image_eqI set_map)
    then show "\<exists>p\<in>set ?ps. id_p p = player_id po" by auto
  qed
  obtain d1 where w: "write_payouts ?ps (players result) d = Inr d1"
    using write_payouts_succeeds[OF found] by blast
  have h: "\<forall>q\<in>set (players_table d). \<forall>p\<in>set ?ps. id_p p = id_p q \<longrightarrow> p\<lparr>payout := payout q\<rparr> = q"
    using key_inj[OF dist] sub by fastforce
  from write_payouts_table[OF w h]
  have d1: "d1 = \<lparr>rooms_table = rooms_table d,
                  players_table = map (fold put_payout (players result)) (players_table d)\<rparr>"
    by simp
  show ?thesis
    using r ids w by (auto simp: finalize_room_def Let_def d1 update_Room_def)
qed

lemma players_of_update_Room [simp]: "players_of (update_Room d r) c = players_of d c"
  by (simp add: players_of_def update_Room_def)

lemma count_players_update_Room [simp]: "count_players (update_Room d r) c = count_players d c"
  by (simp add: count_players_def)

lemma codes_update_Room [simp]: "map code (rooms_table (update_Room d r)) = map code (rooms_table d)"
  by (auto simp: update_Room_def)

lemma players_table_update_Room [simp]: "players_table (update_Room d r) = players_table d"
  by (simp add: update_Room_def)

lemma room_ok_players:
  "players_of d1 (code r) = players_of d (code r) \<Longrightarrow> room_ok d r \<Longrightarrow> room_ok d1 r"
  by (simp add: room_ok_def count_players_def)

lemma player_ok_codes:
  "map code (rooms_table d1) = map code (rooms_table d) \<Longrightarrow> player_ok d p \<Longrightarrow> player_ok d1 p"
  by (simp add: player_ok_def)

lemma status_consts [simp]:
  "STATUS_WAITING \<noteq> STATUS_READY" "STATUS_WAITING \<noteq> STATUS_COMPLETED"
  "STATUS_READY \<noteq> STATUS_COMPLETED" "STATUS_READY \<noteq> STATUS_WAITING"
  "STATUS_COMPLETED \<noteq> STATUS_WAITING" "STATUS_COMPLETED \<noteq> STATUS_READY"
  by (simp_all add: STATUS_WAITING_def STATUS_READY_def STATUS_COMPLETED_def)

lemma invar_empty: "invar empty_db"
  by (simp add: invar_def empty_db_def)

lemma unique_room_code_fresh:
  "unique_room_code d draws = Some c \<Longrightarrow> get_Room d c = None"
  by (induction draws) (auto split: if_splits)

lemma invar_no_players_of_fresh:
  assumes "invar d" "c \<notin> set (map code (rooms_table d))"
  shows "players_of d c = []"
  using assms by (auto simp: invar_def player_ok_def players_of_def filter_empty_conv)

lemma invar_create_room:
  assumes "invar d" "create_room d n draws now = Some (res, d1)"
  shows "invar d1"
proof -
  from assms(2) obtain c where u: "unique_room_code d draws = Some c"
    by (auto simp: create_room_def split: option.splits)
  have fresh: "c \<notin> set (map code (rooms_table d))"
    using unique_room_code_fresh[OF u] by (simp add: get_Room_None)
  let ?room = "\<lparr>code = c, max_players = n, created_at = now, status = STATUS_WAITING\<rparr>"
  show ?thesis
  proof (cases "2 \<le> n \<and> n \<le> 4")
    case False
    then have "d1 = d" using assms(2) u fresh
      by (auto simp: create_room_def insert_Room_def Let_def)
    then show ?thesis using assms(1) by simp
  next
    case True
    then have d1: "d1 = d\<lparr>rooms_table := rooms_table d @ [?room]\<rparr>"
      using assms(2) u fresh by (auto simp: create_room_def insert_Room_def Let_def)
    have po: "players_of d1 c' = players_of d c'" for c' by (simp add: d1 players_of_def)
    have "players_of d c = []" using invar_no_players_of_fresh[OF assms(1) fresh] .
    then have "room_ok d1 ?room" using True by (simp add: room_ok_def count_players_def po)
    moreover have "\<forall>r\<in>set (rooms_table d). room_ok d1 r"
      using assms(1) by (simp add: invar_def room_ok_def count_players_def po)
    moreover have "\<forall>p\<in>set (players_table d1). player_ok d1 p"
      using assms(1) by (auto simp: invar_def player_ok_def d1)
    ultimately show ?thesis using assms(1) fresh by (auto simp: invar_def d1)
  qed
qed

lemma join_room_no_room:
  "get_Room d c = None \<Longrightarrow>
     join_room d c name new_id now = (Inl (HTTPException 404 ''Room not found''), d)"
  by (simp add: join_room_def get_room_def)

lemma join_room_full:
  "get_Room d c = Some room \<Longrightarrow> max_players room \<le> count_players d c \<Longrightarrow>
     join_room d c name new_id now = (Inl (HTTPException 400 ''Room is full''), d)"
  by (simp add: join_room_def get_room_def)

lemma join_room_dup:
  "get_Room d c = Some room \<Longrightarrow> count_players d c < max_players room \<Longrightarrow>
   new_id \<in> set (map id_p (players_table d)) \<Longrightarrow>
     join_room d c name new_id now = (Inl IntegrityError, d)"
  by (simp add: join_room_def get_room_def insert_Player_def Let_def)

lemma join_room_ok:
  assumes "get_Room d c = Some room" "count_players d c < max_players room"
    "new_id \<notin> set (map id_p (players_table d))"
  shows "join_room d c name new_id now =
     (Inr (new_player c name new_id now),
      if count_players d c + 1 = max_players room
      then update_Room (d\<lparr>players_table := players_table d @ [new_player c name new_id now]\<rparr>)
             (room\<lparr>status := STATUS_READY\<rparr>)
      else d\<lparr>players_table := players_table d @ [new_player c name new_id now]\<rparr>)"
proof -
  have "code room = c" using assms(1) get_Room_Some by blast
  then show ?thesis
    using assms by (simp add: join_room_def get_room_def insert_Player_def Let_def new_player_def)
qed

lemma invar_room_ok: "invar d \<Longrightarrow> get_Room d c = Some room \<Longrightarrow> room_ok d room \<and> code room = c"
  using get_Room_Some by (auto simp: invar_def)

lemma invar_rooms_update:
  assumes "invar d" "get_Room d c = Some room" "room_ok d (room\<lparr>status := s\<rparr>)"
  shows "invar (update_Room d (room\<lparr>status := s\<rparr>))"
proof -
  let ?d = "update_Room d (room\<lparr>status := s\<rparr>)"
  have c: "code room = c" using assms(2) get_Room_Some by blast
  have "\<forall>r\<in>set (rooms_table ?d). room_ok ?d r"
  proof
    fix r assume "r \<in> set (rooms_table ?d)"
    then have "r = room\<lparr>status := s\<rparr> \<or> r \<in> set (rooms_table d)"
      by (auto simp: update_Room_def split: if_splits)
    then have "room_ok d r" using assms by (auto simp: invar_def)
    then show "room_ok ?d r" by (rule room_ok_players[rotated]) simp
  qed
  moreover have "\<forall>p\<in>set (players_table ?d). player_ok ?d p"
    using assms(1) player_ok_codes[of ?d d] by (simp add: invar_def)
  ultimately show ?thesis using assms(1) by (simp add: invar_def)
qed

lemma invar_join_room:
  assumes "invar d" "join_room d c name new_id now = (res, d1)"
  shows "invar d1"
proof (cases "get_Room d c")
  case None
  then show ?thesis using assms by (simp add: join_room_no_room)
next
  case (Some room)
  have c: "code room = c" "room \<in> set (rooms_table d)" using Some get_Room_Some by blast+
  have rok: "room_ok d room" using invar_room_ok[OF assms(1) Some] by simp
  let ?player = "new_player c name new_id now"
  show ?thesis
  proof (cases "max_players room \<le> count_players d c \<or> new_id \<in> set (map id_p (players_table d))")
    case True
    then have "d1 = d" using assms(2) Some join_room_full[OF Some] join_room_dup[OF Some]
      by (cases "max_players room \<le> count_players d c") auto
    then show ?thesis using assms(1) by simp
  next
    case False
    let ?d = "d\<lparr>players_table := players_table d @ [?player]\<rparr>"
    have jr: "d1 = (if count_players d c + 1 = max_players room
                    then update_Room ?d (room\<lparr>status := STATUS_READY\<rparr>) else ?d)"
      using join_room_ok[OF Some, of new_id name now] False assms(2) by simp
    have po: "players_of ?d c' = players_of d c' @ (if c' = c then [?player] else [])" for c'
      by (auto simp: players_of_def new_player_def)
    have cnt: "count_players ?d c' = count_players d c' + (if c' = c then 1 else 0)" for c'
      by (simp add: count_players_def po)
    have other: "room_ok ?d r" if "r \<in> set (rooms_table d)" "code r \<noteq> c" for r
    proof -
      have "room_ok d r" using assms(1) that by (simp add: invar_def)
      moreover have "players_of ?d (code r) = players_of d (code r)" using that by (simp add: po)
      ultimately show ?thesis using room_ok_players by blast
    qed
    have same: "r = room" if "r \<in> set (rooms_table d)" "code r = c" for r
      using key_inj[of code "rooms_table d" r room] assms(1) that c by (simp add: invar_def)
    have pok: "\<forall>p\<in>set (players_table ?d). player_ok ?d p"
      using assms(1) c by (auto simp: invar_def player_ok_def new_player_def)
    have dist: "distinct (map id_p (players_table ?d))" "distinct (map code (rooms_table ?d))"
      using assms(1) False by (auto simp: invar_def new_player_def)
    show ?thesis
    proof (cases "count_players d c + 1 = max_players room")
      case True
      then have d1: "d1 = update_Room ?d (room\<lparr>status := STATUS_READY\<rparr>)"
        using jr by simp
      have "room_ok ?d room"
        using rok False True c
        by (auto simp: room_ok_def cnt)
      then have inv: "invar ?d"
        using other same pok dist by (auto simp: invar_def)
      have g: "get_Room ?d c = Some room" using Some by (simp add: get_Room_def)
      have "room_ok ?d (room\<lparr>status := STATUS_READY\<rparr>)"
        using rok True c by (auto simp: room_ok_def cnt)
      from invar_rooms_update[OF inv g this] show ?thesis by (simp add: d1)
    next
      case ne: False
      then have d1: "d1 = ?d" using jr by simp
      have "room_ok ?d room"
        using rok False ne c
        by (auto simp: room_ok_def cnt)
      then show ?thesis
        using other same pok dist by (auto simp: invar_def d1)
    qed
  qed
qed

lemma players_of_map:
  assumes "\<And>x. room_code (f x) = room_code x"
  shows "players_of (d\<lparr>players_table := map f (players_table d)\<rparr>) c = map f (players_of d c)"
  by (simp add: players_of_def filter_map o_def assms)

lemma count_players_map:
  assumes "\<And>x. room_code (f x) = room_code x"
  shows "count_players (d\<lparr>players_table := map f (players_table d)\<rparr>) c = count_players d c"
  by (simp add: count_players_def players_of_map[OF assms])

text \<open>Rewriting rows in place, keeping keys and rooms, keeps the invariant when the new rows are fine.\<close>

lemma invar_map_players:
  assumes inv: "invar d"
    and id: "\<And>x. id_p (f x) = id_p x"
    and rc: "\<And>x. room_code (f x) = room_code x"
    and sub: "\<And>x. x \<in> set (players_table d) \<Longrightarrow> submitted_at x \<noteq> None \<Longrightarrow> submitted_at (f x) \<noteq> None"
    and ok: "\<And>x. x \<in> set (players_table d) \<Longrightarrow> submitted_at (f x) \<noteq> None \<Longrightarrow>
               (\<exists>a b. allocation_a (f x) = Some a \<and> allocation_b (f x) = Some b \<and> a + b = 100)"
  shows "invar (d\<lparr>players_table := map f (players_table d)\<rparr>)"
proof -
  let ?d = "d\<lparr>players_table := map f (players_table d)\<rparr>"
  have ids: "map id_p (players_table ?d) = map id_p (players_table d)"
    by (simp add: id)
  have po: "players_of ?d c = map f (players_of d c)" for c
    by (rule players_of_map[OF rc])
  have cnt: "count_players ?d c = count_players d c" for c
    by (rule count_players_map[OF rc])
  have "room_ok ?d r" if r: "r \<in> set (rooms_table d)" for r
  proof -
    have rok: "room_ok d r" using inv r by (simp add: invar_def)
    have "\<forall>p\<in>set (players_of ?d (code r)). submitted_at p \<noteq> None"
      if "\<forall>p\<in>set (players_of d (code r)). submitted_at p \<noteq> None"
    proof
      fix q assume "q \<in> set (players_of ?d (code r))"
      then obtain x where x: "x \<in> set (players_of d (code r))" "q = f x" by (auto simp: po)
      then have "x \<in> set (players_table d)" "submitted_at x \<noteq> None"
        using that by (auto simp: players_of_def)
      then show "submitted_at q \<noteq> None" using sub x(2) by simp
    qed
    then show ?thesis using rok by (auto simp: room_ok_def cnt)
  qed
  moreover have "player_ok ?d p" if "p \<in> set (players_table ?d)" for p
  proof -
    from that obtain x where x: "x \<in> set (players_table d)" "p = f x" by auto
    have "player_ok d x" using inv x by (simp add: invar_def)
    then show ?thesis using ok[OF x(1)] x(2) by (simp add: player_ok_def rc)
  qed
  moreover have "distinct (map id_p (players_table ?d))"
    using inv unfolding ids by (simp add: invar_def)
  moreover have "distinct (map code (rooms_table ?d))"
    using inv by (simp add: invar_def)
  ultimately show ?thesis unfolding invar_def by simp
qed

lemma update_Player_as_map:
  assumes "distinct (map id_p (players_table d))" "p \<in> set (players_table d)"
    and "id_p (g p) = id_p p"
  shows "update_Player d (g p) = d\<lparr>players_table := map (\<lambda>x. if id_p x = id_p p then g x else x) (players_table d)\<rparr>"
proof -
  have "x = p" if "x \<in> set (players_table d)" "id_p x = id_p p" for x
    using key_inj[OF assms(1) that(1) assms(2)] that(2) by simp
  then have "map (\<lambda>x. if id_p x = id_p (g p) then g p else x) (players_table d) =
             map (\<lambda>x. if id_p x = id_p p then g x else x) (players_table d)"
    using assms(3) by (intro map_cong) auto
  then show ?thesis by (simp add: update_Player_def)
qed

subsection \<open>LeaveRoom\<close>

lemma leave_room_not_found:
  "get_Player d pid = None \<or> (\<exists>p. get_Player d pid = Some p \<and> room_code p \<noteq> c) \<Longrightarrow>
     leave_room d c pid = (Inl (HTTPException 404 ''Player not found''), d)"
  by (auto simp: leave_room_def)

lemma leave_room_no_room:
  "get_Player d pid = Some p \<Longrightarrow> room_code p = c \<Longrightarrow> get_Room d c = None \<Longrightarrow>
     leave_room d c pid = (Inl (HTTPException 404 ''Room not found''), d)"
  by (simp add: leave_room_def get_room_def)

lemma leave_room_completed:
  "get_Player d pid = Some p \<Longrightarrow> room_code p = c \<Longrightarrow> get_Room d c = Some room \<Longrightarrow>
   status room = STATUS_COMPLETED \<Longrightarrow>
     leave_room d c pid = (Inl (HTTPException 400 ''Game already completed''), d)"
  by (simp add: leave_room_def get_room_def)

lemma leave_room_ok:
  "get_Player d pid = Some p \<Longrightarrow> room_code p = c \<Longrightarrow> get_Room d c = Some room \<Longrightarrow>
   status room \<noteq> STATUS_COMPLETED \<Longrightarrow>
     leave_room d c pid =
       (if count_players (delete_Player d p) c < max_players room \<and> status room = STATUS_READY
        then (Inr (p, room\<lparr>status := STATUS_WAITING\<rparr>),
              update_Room (delete_Player d p) (room\<lparr>status := STATUS_WAITING\<rparr>))
        else (Inr (p, room), delete_Player d p))"
  by (simp add: leave_room_def get_room_def Let_def)

lemma players_of_delete_Player:
  "players_of (delete_Player d p) c = filter (\<lambda>x. id_p x \<noteq> id_p p) (players_of d c)"
  by (auto simp: players_of_def delete_Player_def intro: filter_cong)

lemma players_of_delete_other:
  assumes "distinct (map id_p (players_table d))" "p \<in> set (players_table d)" "room_code p \<noteq> c"
  shows "players_of (delete_Player d p) c = players_of d c"
proof -
  have "id_p x \<noteq> id_p p" if "x \<in> set (players_of d c)" for x
  proof
    assume e: "id_p x = id_p p"
    have "x \<in> set (players_table d)" "room_code x = c" using that by (auto simp: players_of_def)
    then show False using key_inj[OF assms(1) _ assms(2) e] assms(3) by auto
  qed
  then show ?thesis by (simp add: players_of_delete_Player filter_id_conv)
qed

lemma count_players_delete_same:
  assumes "distinct (map id_p (players_table d))" "p \<in> set (players_table d)"
  shows "count_players (delete_Player d p) (room_code p) = count_players d (room_code p) - 1"
proof -
  let ?xs = "players_of d (room_code p)"
  have d: "distinct ?xs" using assms(1) by (simp add: players_of_def distinct_map)
  have m: "p \<in> set ?xs" using assms(2) by (simp add: players_of_def)
  have "filter (\<lambda>x. id_p x \<noteq> id_p p) ?xs = filter (\<lambda>x. x \<noteq> p) ?xs"
  proof (rule filter_cong[OF refl])
    fix x assume "x \<in> set ?xs"
    then have "x \<in> set (players_table d)" by (simp add: players_of_def)
    then show "(id_p x \<noteq> id_p p) = (x \<noteq> p)"
      using key_inj[OF assms(1) _ assms(2)] by auto
  qed
  also have "\<dots> = removeAll p ?xs" by (simp add: removeAll_filter_not_eq) (metis)
  finally have "length (players_of (delete_Player d p) (room_code p)) = length ?xs - 1"
    using d m by (simp add: players_of_delete_Player distinct_removeAll length_remove1 distinct_remove1_removeAll[symmetric])
  moreover have "0 < length ?xs" using m by (auto simp: length_greater_0_conv)
  ultimately show ?thesis unfolding count_players_def by linarith
qed

lemma invar_update_Room_weak:
  assumes di: "distinct (map id_p (players_table d))"
    and dc: "distinct (map code (rooms_table d))"
    and po: "\<forall>p\<in>set (players_table d). player_ok d p"
    and ro: "\<forall>r\<in>set (rooms_table d). code r \<noteq> code room1 \<longrightarrow> room_ok d r"
    and r1: "room_ok d room1"
  shows "invar (update_Room d room1)"
proof -
  let ?d = "update_Room d room1"
  have c: "map code (rooms_table ?d) = map code (rooms_table d)" by simp
  have "\<forall>p\<in>set (players_table ?d). player_ok ?d p"
    using po player_ok_codes[OF c] by simp
  moreover have "\<forall>r\<in>set (rooms_table ?d). room_ok ?d r"
  proof
    fix r assume "r \<in> set (rooms_table ?d)"
    then have "r = room1 \<or> (r \<in> set (rooms_table d) \<and> code r \<noteq> code room1)"
      by (auto simp: update_Room_def split: if_splits)
    then have "room_ok d r" using ro r1 by auto
    then show "room_ok ?d r" by (rule room_ok_players[rotated]) simp
  qed
  ultimately show ?thesis using di dc unfolding invar_def c by simp
qed

lemma invar_leave_room:
  assumes inv: "invar d" and lv: "leave_room d c pid = (res, d1)"
  shows "invar d1"
proof -
  consider (nf) "get_Player d pid = None \<or> (\<exists>p. get_Player d pid = Some p \<and> room_code p \<noteq> c)"
    | (found) p where "get_Player d pid = Some p" "room_code p = c"
    by (cases "get_Player d pid") auto
  then show ?thesis
  proof cases
    case nf
    then show ?thesis using leave_room_not_found[OF nf] lv inv by simp
  next
    case found
    show ?thesis
    proof (cases "get_Room d c")
      case None
      then show ?thesis using leave_room_no_room[OF found None] lv inv by simp
    next
      case (Some room)
      show ?thesis
      proof (cases "status room = STATUS_COMPLETED")
        case True
        then show ?thesis using leave_room_completed[OF found Some True] lv inv by simp
      next
        case False
        note eq = leave_room_ok[OF found Some False]
        let ?e = "delete_Player d p"
        have di: "distinct (map id_p (players_table d))" and dc: "distinct (map code (rooms_table d))"
          using inv by (auto simp: invar_def)
        have pm: "p \<in> set (players_table d)" using get_Player_Some[OF found(1)] by simp
        have rm: "room \<in> set (rooms_table d)" "code room = c" using get_Room_Some[OF Some] by auto
        have rok: "room_ok d room" using inv rm by (auto simp: invar_def)
        have die: "distinct (map id_p (players_table ?e))"
          using di by (simp add: delete_Player_def distinct_map_filter)
        have ce: "map code (rooms_table ?e) = map code (rooms_table d)" "rooms_table ?e = rooms_table d"
          by (simp_all add: delete_Player_def)
        have dce: "distinct (map code (rooms_table ?e))" using dc ce by simp
        have poe: "\<forall>x\<in>set (players_table ?e). player_ok ?e x"
        proof
          fix x assume "x \<in> set (players_table ?e)"
          then have "x \<in> set (players_table d)" by (simp add: delete_Player_def)
          then have "player_ok d x" using inv by (auto simp: invar_def)
          then show "player_ok ?e x" by (rule player_ok_codes[OF ce(1)])
        qed
        have roe: "\<forall>r\<in>set (rooms_table ?e). code r \<noteq> c \<longrightarrow> room_ok ?e r"
        proof (intro ballI impI)
          fix r assume r: "r \<in> set (rooms_table ?e)" "code r \<noteq> c"
          then have "room_ok d r" using inv ce(2) by (auto simp: invar_def)
          moreover have "players_of ?e (code r) = players_of d (code r)"
            using players_of_delete_other[OF di pm] r(2) found(2) by simp
          ultimately show "room_ok ?e r" by (rule room_ok_players[rotated])
        qed
        have cnt: "count_players ?e c = count_players d c - 1"
          using count_players_delete_same[OF di pm] found(2) by simp
        have sub: "set (players_of ?e c) \<subseteq> set (players_of d c)"
          by (auto simp: players_of_delete_Player)
        show ?thesis
        proof (cases "count_players ?e c < max_players room \<and> status room = STATUS_READY")
          case True
          then have d1: "d1 = update_Room ?e (room\<lparr>status := STATUS_WAITING\<rparr>)"
            using eq lv by simp
          have "room_ok ?e (room\<lparr>status := STATUS_WAITING\<rparr>)"
            using rok cnt rm(2) by (simp add: room_ok_def)
          then show ?thesis unfolding d1
            using invar_update_Room_weak[OF die dce poe, of "room\<lparr>status := STATUS_WAITING\<rparr>"] roe rm(2)
            by simp
        next
          case F2: False
          then have d1: "d1 = ?e" using eq lv by (simp split: if_splits)
          have nr: "status room \<noteq> STATUS_READY"
          proof
            assume "status room = STATUS_READY"
            then have "count_players d c = max_players room" using rok rm(2) by (simp add: room_ok_def)
            then show False using F2 cnt \<open>status room = STATUS_READY\<close> by simp
          qed
          have "room_ok ?e room" using rok cnt rm(2) nr False by (simp add: room_ok_def)
          moreover have "r = room" if "r \<in> set (rooms_table d)" "code r = c" for r
            using key_inj[OF dc that(1) rm(1)] that(2) rm(2) by simp
          ultimately have "\<forall>r\<in>set (rooms_table ?e). room_ok ?e r"
            using roe ce(2) by auto
          then show ?thesis unfolding d1 invar_def using die dce poe by simp
        qed
      qed
    qed
  qed
qed

subsection \<open>SubmitAllocation\<close>

lemma length_filter_eq_iff: "length (filter P xs) = length xs \<longleftrightarrow> (\<forall>x\<in>set xs. P x)"
proof -
  have "length (filter P xs) + length (filter (\<lambda>x. \<not> P x) xs) = length xs"
    by (rule sum_length_filter_compl)
  then have "length (filter P xs) = length xs \<longleftrightarrow> filter (\<lambda>x. \<not> P x) xs = []" by auto
  then show ?thesis by (simp add: filter_empty_conv)
qed

lemma all_players_submitted_iff:
  "all_players_submitted d room \<longleftrightarrow>
     max_players room \<le> count_players d (code room) \<and> 2 \<le> count_players d (code room) \<and>
     (\<forall>p\<in>set (players_of d (code room)). submitted_at p \<noteq> None)"
  by (auto simp: all_players_submitted_def Let_def count_players_def length_filter_eq_iff)

lemma submit_allocation_not_found:
  "a + b = 100 \<Longrightarrow>
   get_Player d pid = None \<or> (\<exists>p. get_Player d pid = Some p \<and> room_code p \<noteq> c) \<Longrightarrow>
     submit_allocation d c pid a b now = (Inl (HTTPException 404 ''Player not found''), d)"
  by (auto simp: submit_allocation_def)

lemma submit_allocation_no_room:
  "a + b = 100 \<Longrightarrow> get_Player d pid = Some p \<Longrightarrow> room_code p = c \<Longrightarrow> get_Room d c = None \<Longrightarrow>
     submit_allocation d c pid a b now = (Inl (HTTPException 404 ''Room not found''), d)"
  by (simp add: submit_allocation_def get_room_def)

lemma submit_allocation_few:
  "a + b = 100 \<Longrightarrow> get_Player d pid = Some p \<Longrightarrow> room_code p = c \<Longrightarrow> get_Room d c = Some room \<Longrightarrow>
   count_players d c < 2 \<Longrightarrow>
     submit_allocation d c pid a b now = (Inl (HTTPException 400 ''Need at least two players''), d)"
  by (simp add: submit_allocation_def get_room_def)

lemma submit_allocation_already:
  "a + b = 100 \<Longrightarrow> get_Player d pid = Some p \<Longrightarrow> room_code p = c \<Longrightarrow> get_Room d c = Some room \<Longrightarrow>
   2 \<le> count_players d c \<Longrightarrow> submitted_at p \<noteq> None \<Longrightarrow>
     submit_allocation d c pid a b now = (Inl (HTTPException 400 ''Allocation already submitted''), d)"
  by (auto simp: submit_allocation_def get_room_def)

lemma submit_allocation_ok:
  "a + b = 100 \<Longrightarrow> get_Player d pid = Some p \<Longrightarrow> room_code p = c \<Longrightarrow> get_Room d c = Some room \<Longrightarrow>
   2 \<le> count_players d c \<Longrightarrow> submitted_at p = None \<Longrightarrow>
     submit_allocation d c pid a b now =
       (if all_players_submitted (update_Player d (submit_row a b now p)) room
        then (case finalize_room (update_Player d (submit_row a b now p)) room of
                (Inl e, d2) \<Rightarrow> (Inl e, d2)
              | (Inr result, d2) \<Rightarrow>
                  (Inr (case get_Player d2 pid of None \<Rightarrow> submit_row a b now p | Some p2 \<Rightarrow> p2,
                        Some result), d2))
        else (Inr (submit_row a b now p, None), update_Player d (submit_row a b now p)))"
  unfolding submit_row_def submit_allocation_def get_room_def Let_def by simp

text \<open>The database after the player's row has been committed.\<close>

lemma submit_row_db:
  assumes inv: "invar d" and g: "get_Player d pid = Some p" and ab: "a + b = 100"
  shows "update_Player d (submit_row a b now p) =
           d\<lparr>players_table := map (\<lambda>x. if id_p x = pid then submit_row a b now x else x) (players_table d)\<rparr>"
    and "invar (update_Player d (submit_row a b now p))"
    and "count_players (update_Player d (submit_row a b now p)) c1 = count_players d c1"
    and "players_of (update_Player d (submit_row a b now p)) c1 =
           map (\<lambda>x. if id_p x = pid then submit_row a b now x else x) (players_of d c1)"
proof -
  let ?f = "\<lambda>x. if id_p x = pid then submit_row a b now x else x"
  have di: "distinct (map id_p (players_table d))" using inv by (simp add: invar_def)
  have pm: "p \<in> set (players_table d)" "id_p p = pid" using get_Player_Some[OF g] by auto
  have "update_Player d (submit_row a b now p) =
          d\<lparr>players_table := map (\<lambda>x. if id_p x = id_p p then submit_row a b now x else x) (players_table d)\<rparr>"
    by (rule update_Player_as_map[OF di pm(1)]) (simp add: submit_row_def)
  then show eq: "update_Player d (submit_row a b now p) = d\<lparr>players_table := map ?f (players_table d)\<rparr>"
    using pm(2) by simp
  have id: "\<And>x. id_p (?f x) = id_p x" and rc: "\<And>x. room_code (?f x) = room_code x"
    by (simp_all add: submit_row_def)
  show "invar (update_Player d (submit_row a b now p))" unfolding eq
  proof (rule invar_map_players[OF inv id rc])
    fix x assume "x \<in> set (players_table d)" "submitted_at x \<noteq> None"
    then show "submitted_at (?f x) \<noteq> None" by (simp add: submit_row_def)
  next
    fix x assume x: "x \<in> set (players_table d)" "submitted_at (?f x) \<noteq> None"
    show "\<exists>a b. allocation_a (?f x) = Some a \<and> allocation_b (?f x) = Some b \<and> a + b = 100"
    proof (cases "id_p x = pid")
      case True then show ?thesis using ab by (simp add: submit_row_def)
    next
      case False
      then have "player_ok d x" "submitted_at x \<noteq> None" using inv x by (auto simp: invar_def)
      then show ?thesis using False by (simp add: player_ok_def)
    qed
  qed
  show "count_players (update_Player d (submit_row a b now p)) c1 = count_players d c1"
    unfolding eq by (rule count_players_map[OF rc])
  show "players_of (update_Player d (submit_row a b now p)) c1 = map ?f (players_of d c1)"
    unfolding eq by (rule players_of_map[OF rc])
qed

lemma fold_put_payout_fields [simp]:
  "id_p (fold put_payout pos q) = id_p q"
  "room_code (fold put_payout pos q) = room_code q"
  "display_name (fold put_payout pos q) = display_name q"
  "allocation_a (fold put_payout pos q) = allocation_a q"
  "allocation_b (fold put_payout pos q) = allocation_b q"
  "submitted_at (fold put_payout pos q) = submitted_at q"
  "joined_at (fold put_payout pos q) = joined_at q"
  by (induction pos arbitrary: q; simp add: put_payout_def)+

lemma find_map_key:
  "(\<And>x. k (h x) = k x) \<Longrightarrow> find (\<lambda>x. k x = i) (map h xs) = map_option h (find (\<lambda>x. k x = i) xs)"
  by (induction xs) simp_all

lemma get_Player_map:
  "(\<And>x. id_p (h x) = id_p x) \<Longrightarrow>
     get_Player (d\<lparr>players_table := map h (players_table d)\<rparr>) i = map_option h (get_Player d i)"
  by (simp add: get_Player_def find_map_key)

lemma get_Player_update_Room [simp]: "get_Player (update_Room d r) i = get_Player d i"
  by (simp add: get_Player_def update_Room_def)

lemma get_Room_players_table [simp]: "get_Room (d\<lparr>players_table := ps\<rparr>) c = get_Room d c"
  by (simp add: get_Room_def)

lemma get_Room_update_Room_other:
  "code r \<noteq> c \<Longrightarrow> get_Room (update_Room d r) c = get_Room d c"
proof -
  have "find (\<lambda>x. code x = c) (map (\<lambda>x. if code x = code r then r else x) xs) = find (\<lambda>x. code x = c) xs"
    if "code r \<noteq> c" for xs
    using that by (induction xs) auto
  then show "code r \<noteq> c \<Longrightarrow> get_Room (update_Room d r) c = get_Room d c"
    by (simp add: get_Room_def update_Room_def)
qed

lemma get_Room_update_Room_same:
  "get_Room d c = Some room \<Longrightarrow> code r = c \<Longrightarrow> get_Room (update_Room d r) c = Some r"
proof -
  have "find (\<lambda>x. code x = c) (map (\<lambda>x. if code x = code r then r else x) xs) = Some r"
    if "find (\<lambda>x. code x = c) xs = Some room" "code r = c" for xs
    using that by (induction xs) (auto split: if_splits)
  then show "get_Room d c = Some room \<Longrightarrow> code r = c \<Longrightarrow> get_Room (update_Room d r) c = Some r"
    by (simp add: get_Room_def update_Room_def)
qed

text \<open>The database after a finalization: payouts written, room Completed.\<close>

lemma finalize_room_invar:
  assumes inv: "invar d" and gr: "get_Room d c = Some room"
    and aps: "all_players_submitted d room"
  shows "\<exists>result.
           calculate_payouts (sort_key joined_at (players_of d c)) = Inr result \<and>
           map player_id (players result) = map id_p (sort_key joined_at (players_of d c)) \<and>
           finalize_room d room =
             (Inr result,
              update_Room (d\<lparr>players_table := map (fold put_payout (players result)) (players_table d)\<rparr>)
                (room\<lparr>status := STATUS_COMPLETED\<rparr>)) \<and>
           invar (update_Room (d\<lparr>players_table := map (fold put_payout (players result)) (players_table d)\<rparr>)
                (room\<lparr>status := STATUS_COMPLETED\<rparr>))"
proof -
  have di: "distinct (map id_p (players_table d))" using inv by (simp add: invar_def)
  have rk: "room_ok d room" "code room = c" using invar_room_ok[OF inv gr] by auto
  have a: "max_players room \<le> count_players d c" "2 \<le> count_players d c"
    "\<forall>p\<in>set (players_of d c). submitted_at p \<noteq> None"
    using aps rk(2) by (auto simp: all_players_submitted_iff)
  have ne: "players_of d (code room) \<noteq> []" using a(2) rk(2) by (auto simp: count_players_def)
  have al: "\<forall>p\<in>set (players_of d (code room)). allocation_a p \<noteq> None \<and> allocation_b p \<noteq> None"
  proof
    fix p assume p: "p \<in> set (players_of d (code room))"
    then have "p \<in> set (players_table d)" "submitted_at p \<noteq> None"
      using a(3) rk(2) by (auto simp: players_of_def)
    then have "\<exists>a b. allocation_a p = Some a \<and> allocation_b p = Some b \<and> a + b = 100"
      using inv by (auto simp: invar_def player_ok_def)
    then show "allocation_a p \<noteq> None \<and> allocation_b p \<noteq> None" by auto
  qed
  obtain result where r: "calculate_payouts (sort_key joined_at (players_of d (code room))) = Inr result"
    "map player_id (players result) = map id_p (sort_key joined_at (players_of d (code room)))"
    "finalize_room d room =
             (Inr result,
              \<lparr>rooms_table = map (\<lambda>x. if code x = code room then room\<lparr>status := STATUS_COMPLETED\<rparr> else x)
                                 (rooms_table d),
               players_table = map (fold put_payout (players result)) (players_table d)\<rparr>)"
    using finalize_room_ok[OF di ne al] by blast
  let ?g = "fold put_payout (players result)"
  let ?e = "d\<lparr>players_table := map ?g (players_table d)\<rparr>"
  have eq: "\<lparr>rooms_table = map (\<lambda>x. if code x = code room then room\<lparr>status := STATUS_COMPLETED\<rparr> else x)
                                 (rooms_table d),
               players_table = map ?g (players_table d)\<rparr> = update_Room ?e (room\<lparr>status := STATUS_COMPLETED\<rparr>)"
    by (simp add: update_Room_def)
  have ie: "invar ?e"
    by (rule invar_map_players[OF inv]) (use inv in \<open>auto simp: invar_def player_ok_def\<close>)
  have pe: "players_of ?e c = map ?g (players_of d c)" by (rule players_of_map) simp
  have ce: "count_players ?e c = count_players d c" by (rule count_players_map) simp
  have "room_ok ?e (room\<lparr>status := STATUS_COMPLETED\<rparr>)"
    using rk a ce pe by (auto simp: room_ok_def)
  then have "invar (update_Room ?e (room\<lparr>status := STATUS_COMPLETED\<rparr>))"
    using invar_rooms_update[OF ie _ , of c room STATUS_COMPLETED] gr by simp
  then show ?thesis using r eq rk(2) by auto
qed

lemma invar_submit_allocation:
  assumes inv: "invar d" and sb: "submit_allocation d c pid a b now = (res, d1)"
  shows "invar d1"
proof (cases "a + b = 100")
  case False
  then show ?thesis using sb inv by (simp add: submit_allocation_def)
next
  case ab: True
  consider (nf) "get_Player d pid = None \<or> (\<exists>p. get_Player d pid = Some p \<and> room_code p \<noteq> c)"
    | (found) p where "get_Player d pid = Some p" "room_code p = c"
    by (cases "get_Player d pid") auto
  then show ?thesis
  proof cases
    case nf
    show ?thesis using submit_allocation_not_found[OF ab nf] sb inv by simp
  next
    case found
    show ?thesis
    proof (cases "get_Room d c")
      case None
      then show ?thesis using submit_allocation_no_room[OF ab found None] sb inv by simp
    next
      case (Some room)
      show ?thesis
      proof (cases "2 \<le> count_players d c \<and> submitted_at p = None")
        case False
        then have "snd (submit_allocation d c pid a b now) = d"
          using submit_allocation_few[OF ab found Some] submit_allocation_already[OF ab found Some]
          by (cases "count_players d c < 2") auto
        then show ?thesis using sb inv by auto
      next
        case True
        let ?e = "update_Player d (submit_row a b now p)"
        note eq = submit_allocation_ok[OF ab found Some, of now] 
        have ie: "invar ?e" by (rule submit_row_db(2)[OF inv found(1) ab])
        have ge: "get_Room ?e c = Some room" using Some by (simp add: update_Player_def)
        show ?thesis
        proof (cases "all_players_submitted ?e room")
          case F: False
          then show ?thesis using eq True sb ie by simp
        next
          case T: True
          obtain result where
            "finalize_room ?e room =
             (Inr result,
              update_Room (?e\<lparr>players_table := map (fold put_payout (players result)) (players_table ?e)\<rparr>)
                (room\<lparr>status := STATUS_COMPLETED\<rparr>))"
            "invar (update_Room (?e\<lparr>players_table := map (fold put_payout (players result)) (players_table ?e)\<rparr>)
                (room\<lparr>status := STATUS_COMPLETED\<rparr>))"
            using finalize_room_invar[OF ie ge T] by blast
          then show ?thesis using eq True sb T by simp
        qed
      qed
    qed
  qed
qed

lemma invar_step: "invar d \<Longrightarrow> step d x = (out, d1) \<Longrightarrow> invar d1"
proof (cases x)
  case (CreateRoom n draws now)
  assume "invar d" "step d x = (out, d1)"
  then show ?thesis using CreateRoom invar_create_room[of d n draws now]
    by (auto split: option.splits prod.splits)
next
  case (JoinRoom c name new_id now)
  assume "invar d" "step d x = (out, d1)"
  then show ?thesis using JoinRoom invar_join_room[of d c name new_id now]
    by (auto split: prod.splits)
next
  case (SubmitAllocation c pid a b now)
  assume "invar d" "step d x = (out, d1)"
  then show ?thesis using SubmitAllocation invar_submit_allocation[of d c pid a b now]
    by (auto split: prod.splits)
next
  case (LeaveRoom c pid)
  assume "invar d" "step d x = (out, d1)"
  then show ?thesis using LeaveRoom invar_leave_room[of d c pid]
    by (auto split: prod.splits)
qed

lemma invar_run: "invar d \<Longrightarrow> invar (snd (run d ops))"
proof (induction ops arbitrary: d)
  case Nil then show ?case by simp
next
  case (Cons x xs)
  obtain out d1 where s: "step d x = (out, d1)" by (cases "step d x")
  then have "invar d1" using invar_step Cons.prems by blast
  then have "invar (snd (run d1 xs))" by (rule Cons.IH)
  then show ?case using s by (cases "run d1 xs") simp
qed

lemma invar_reachable: "invar (snd (run empty_db ops))"
  by (rule invar_run[OF invar_empty])

subsection \<open>The outcomes of SubmitAllocation on a database that satisfies the invariant\<close>

lemma submit_allocation_invar_cases:
  assumes inv: "invar d" and sb: "submit_allocation d c pid a b now = (res, d1)"
  obtains (fail) e where "res = Inl e" "d1 = d"
  | (plain) p room where "a + b = 100" "get_Player d pid = Some p" "room_code p = c"
      "get_Room d c = Some room" "2 \<le> count_players d c" "submitted_at p = None"
      "\<not> all_players_submitted (update_Player d (submit_row a b now p)) room"
      "res = Inr (submit_row a b now p, None)" "d1 = update_Player d (submit_row a b now p)"
  | (final) p room result where "a + b = 100" "get_Player d pid = Some p" "room_code p = c"
      "get_Room d c = Some room" "2 \<le> count_players d c" "submitted_at p = None"
      "all_players_submitted (update_Player d (submit_row a b now p)) room"
      "calculate_payouts (sort_key joined_at (players_of (update_Player d (submit_row a b now p)) c))
         = Inr result"
      "map player_id (players result) =
         map id_p (sort_key joined_at (players_of (update_Player d (submit_row a b now p)) c))"
      "res = Inr (fold put_payout (players result) (submit_row a b now p), Some result)"
      "d1 = update_Room
              ((update_Player d (submit_row a b now p))
                 \<lparr>players_table := map (fold put_payout (players result))
                    (players_table (update_Player d (submit_row a b now p)))\<rparr>)
              (room\<lparr>status := STATUS_COMPLETED\<rparr>)"
proof (cases "a + b = 100")
  case False
  then show ?thesis using sb fail by (auto simp: submit_allocation_def)
next
  case ab: True
  consider (nf) "get_Player d pid = None \<or> (\<exists>p. get_Player d pid = Some p \<and> room_code p \<noteq> c)"
    | (found) p where "get_Player d pid = Some p" "room_code p = c"
    by (cases "get_Player d pid") auto
  then show ?thesis
  proof cases
    case nf
    show ?thesis using submit_allocation_not_found[OF ab nf] sb fail by auto
  next
    case found
    show ?thesis
    proof (cases "get_Room d c")
      case None
      then show ?thesis using submit_allocation_no_room[OF ab found None] sb fail by auto
    next
      case (Some room)
      show ?thesis
      proof (cases "2 \<le> count_players d c \<and> submitted_at p = None")
        case False
        then have "\<exists>e. submit_allocation d c pid a b now = (Inl e, d)"
          using submit_allocation_few[OF ab found Some] submit_allocation_already[OF ab found Some]
          by (cases "count_players d c < 2") auto
        then show ?thesis using sb fail by auto
      next
        case True
        let ?e = "update_Player d (submit_row a b now p)"
        note eq = submit_allocation_ok[OF ab found Some, of now]
        have ie: "invar ?e" by (rule submit_row_db(2)[OF inv found(1) ab])
        have ge: "get_Room ?e c = Some room" using Some by (simp add: update_Player_def)
        show ?thesis
        proof (cases "all_players_submitted ?e room")
          case F: False
          then show ?thesis using eq True sb plain[OF ab found Some] by simp
        next
          case T: True
          obtain result where r:
            "calculate_payouts (sort_key joined_at (players_of ?e c)) = Inr result"
            "map player_id (players result) = map id_p (sort_key joined_at (players_of ?e c))"
            "finalize_room ?e room =
             (Inr result,
              update_Room (?e\<lparr>players_table := map (fold put_payout (players result)) (players_table ?e)\<rparr>)
                (room\<lparr>status := STATUS_COMPLETED\<rparr>))"
            using finalize_room_invar[OF ie ge T] by blast
          have "get_Player ?e pid = Some (submit_row a b now p)"
          proof -
            have "get_Player ?e pid =
                    map_option (\<lambda>x. if id_p x = pid then submit_row a b now x else x) (get_Player d pid)"
              unfolding submit_row_db(1)[OF inv found(1) ab]
              by (rule get_Player_map) (simp add: submit_row_def)
            then show ?thesis using found(1) get_Player_Some[OF found(1)] by simp
          qed
          then have "get_Player (update_Room (?e\<lparr>players_table := map (fold put_payout (players result)) (players_table ?e)\<rparr>)
                (room\<lparr>status := STATUS_COMPLETED\<rparr>)) pid
               = Some (fold put_payout (players result) (submit_row a b now p))"
            by (simp add: get_Player_map)
          then have "submit_allocation d c pid a b now =
               (Inr (fold put_payout (players result) (submit_row a b now p), Some result),
                update_Room (?e\<lparr>players_table := map (fold put_payout (players result)) (players_table ?e)\<rparr>)
                (room\<lparr>status := STATUS_COMPLETED\<rparr>))"
            using eq True T r(3) by simp
          then show ?thesis using sb final[OF ab found Some _ _ T r(1,2)] True by simp
        qed
      qed
    qed
  qed
qed

subsection \<open>What an operation leaves untouched\<close>

lemma find_append_Some: "find P xs = Some x \<Longrightarrow> find P (xs @ ys) = Some x"
  by (induction xs) (auto split: if_splits)

lemma find_append_None: "find P xs = None \<Longrightarrow> find P (xs @ ys) = find P ys"
  by (induction xs) (auto split: if_splits)

lemma players_of_append:
  "players_of (d\<lparr>players_table := players_table d @ [n]\<rparr>) c =
     (if room_code n = c then players_of d c @ [n] else players_of d c)"
  by (simp add: players_of_def)

lemma players_of_rooms_table [simp]: "players_of (d\<lparr>rooms_table := rs\<rparr>) c = players_of d c"
  by (simp add: players_of_def)

lemma get_Player_delete_other:
  "i \<noteq> id_p p \<Longrightarrow> get_Player (delete_Player d p) i = get_Player d i"
proof -
  have "find (\<lambda>x. id_p x = i) (filter (\<lambda>x. id_p x \<noteq> id_p p) xs) = find (\<lambda>x. id_p x = i) xs"
    if "i \<noteq> id_p p" for xs
    using that by (induction xs) auto
  then show "i \<noteq> id_p p \<Longrightarrow> get_Player (delete_Player d p) i = get_Player d i"
    by (simp add: get_Player_def delete_Player_def)
qed

lemma get_Room_delete_Player [simp]: "get_Room (delete_Player d p) c = get_Room d c"
  by (simp add: get_Room_def delete_Player_def)

lemma get_Room_update_Player [simp]: "get_Room (update_Player d p) c = get_Room d c"
  by (simp add: get_Room_def update_Player_def)

lemma map_players_of_other:
  assumes di: "distinct (map id_p (players_table d))"
    and f: "\<And>x. x \<in> set (players_table d) \<Longrightarrow> room_code x = c \<Longrightarrow> f x = x"
    and rc: "\<And>x. room_code (f x) = room_code x"
  shows "players_of (d\<lparr>players_table := map f (players_table d)\<rparr>) c = players_of d c"
proof -
  have "map f (players_of d c) = players_of d c"
    using f by (intro map_idI) (simp add: players_of_def)
  then show ?thesis using players_of_map[of f d c, OF rc] by simp
qed

text \<open>The rows of another room than the submitting player's are not touched.\<close>

lemma submit_row_other_room:
  assumes inv: "invar d" and g: "get_Player d pid = Some p" and ab: "a + b = 100"
    and o: "room_code p \<noteq> c"
  shows "players_of (update_Player d (submit_row a b now p)) c = players_of d c"
proof -
  have di: "distinct (map id_p (players_table d))" using inv by (simp add: invar_def)
  have pm: "p \<in> set (players_table d)" "id_p p = pid" using get_Player_Some[OF g] by auto
  have "map (\<lambda>x. if id_p x = pid then submit_row a b now x else x) (players_of d c) = players_of d c"
  proof (rule map_idI)
    fix x assume "x \<in> set (players_of d c)"
    then have x: "x \<in> set (players_table d)" "room_code x = c" by (auto simp: players_of_def)
    have "id_p x \<noteq> pid" using key_inj[OF di x(1) pm(1)] pm(2) x(2) o by auto
    then show "(if id_p x = pid then submit_row a b now x else x) = x" by simp
  qed
  then show ?thesis using submit_row_db(4)[OF inv g ab, of now c] by simp
qed

lemma put_payouts_other_room:
  assumes di: "distinct (map id_p (players_table e))"
    and ids: "set (map player_id pos) \<subseteq> set (map id_p (players_of e c1))"
    and o: "c1 \<noteq> c"
  shows "players_of (e\<lparr>players_table := map (fold put_payout pos) (players_table e)\<rparr>) c = players_of e c"
proof -
  have "map (fold put_payout pos) (players_of e c) = players_of e c"
  proof (rule map_idI)
    fix x assume "x \<in> set (players_of e c)"
    then have x: "x \<in> set (players_table e)" "room_code x = c" by (auto simp: players_of_def)
    have "id_p x \<notin> set (map player_id pos)"
    proof
      assume "id_p x \<in> set (map player_id pos)"
      then obtain y where y: "y \<in> set (players_of e c1)" "id_p y = id_p x" using ids by auto
      then have "y \<in> set (players_table e)" "room_code y = c1" by (auto simp: players_of_def)
      then show False using key_inj[OF di x(1) _ y(2)[symmetric]] x(2) o by auto
    qed
    then show "fold put_payout pos x = x" by (rule fold_put_payout_other)
  qed
  then show ?thesis using players_of_map[of "fold put_payout pos" e c] by simp
qed

text \<open>A Completed room and its players under one operation.\<close>

lemma completed_frame_create_room:
  assumes inv: "invar d" and gr: "get_Room d c = Some room"
    and cr: "create_room d n draws now = Some (res, d1)"
  shows "get_Room d1 c = Some room \<and> players_table d1 = players_table d"
proof -
  obtain c1 where u: "unique_room_code d draws = Some c1"
    using cr by (auto simp: create_room_def split: option.splits)
  let ?r = "\<lparr>code = c1, max_players = n, created_at = now, status = STATUS_WAITING\<rparr>"
  have "d1 = d \<or> d1 = d\<lparr>rooms_table := rooms_table d @ [?r]\<rparr>"
    using cr u by (auto simp: create_room_def insert_Room_def Let_def split: if_splits)
  then show ?thesis using gr by (auto simp: get_Room_def find_append_Some)
qed

lemma completed_frame_join_room:
  assumes inv: "invar d" and gr: "get_Room d c = Some room" and st: "status room = STATUS_COMPLETED"
    and jn: "join_room d c1 name new_id now = (res, d1)"
  shows "get_Room d1 c = Some room \<and> players_of d1 c = players_of d c"
proof (cases "c1 = c")
  case True
  have "max_players room \<le> count_players d c"
    using invar_room_ok[OF inv gr] st by (auto simp: room_ok_def)
  from join_room_full[OF gr this] show ?thesis using jn True gr by simp
next
  case False
  show ?thesis
  proof (cases "get_Room d c1")
    case None
    from join_room_no_room[OF None] show ?thesis using jn gr by simp
  next
    case (Some room1)
    have c1: "code room1 = c1" using get_Room_Some[OF Some] by simp
    consider (full) "max_players room1 \<le> count_players d c1"
      | (dup) "count_players d c1 < max_players room1" "new_id \<in> set (map id_p (players_table d))"
      | (ok) "count_players d c1 < max_players room1" "new_id \<notin> set (map id_p (players_table d))"
      by linarith
    then show ?thesis
    proof cases
      case full
      from join_room_full[OF Some full] show ?thesis using jn gr by simp
    next
      case dup
      from join_room_dup[OF Some dup] show ?thesis using jn gr by simp
    next
      case ok
      let ?e = "d\<lparr>players_table := players_table d @ [new_player c1 name new_id now]\<rparr>"
      have e: "get_Room ?e c = Some room" "players_of ?e c = players_of d c"
        using gr False by (simp_all add: players_of_append new_player_def)
      have "d1 = ?e \<or> d1 = update_Room ?e (room1\<lparr>status := STATUS_READY\<rparr>)"
        using join_room_ok[OF Some ok] jn by (auto split: if_splits)
      then show ?thesis using e c1 False by (auto simp: get_Room_update_Room_other)
    qed
  qed
qed

lemma completed_frame_leave_room:
  assumes inv: "invar d" and gr: "get_Room d c = Some room" and st: "status room = STATUS_COMPLETED"
    and lv: "leave_room d c1 pid = (res, d1)"
  shows "get_Room d1 c = Some room \<and> players_of d1 c = players_of d c"
proof -
  consider (nf) "get_Player d pid = None \<or> (\<exists>p. get_Player d pid = Some p \<and> room_code p \<noteq> c1)"
    | (found) p where "get_Player d pid = Some p" "room_code p = c1"
    by (cases "get_Player d pid") auto
  then show ?thesis
  proof cases
    case nf
    then show ?thesis using leave_room_not_found[OF nf] lv gr by simp
  next
    case found
    show ?thesis
    proof (cases "get_Room d c1")
      case None
      then show ?thesis using leave_room_no_room[OF found None] lv gr by simp
    next
      case (Some room1)
      show ?thesis
      proof (cases "status room1 = STATUS_COMPLETED")
        case True
        then show ?thesis using leave_room_completed[OF found Some True] lv gr by simp
      next
        case False
        then have ne: "c1 \<noteq> c" using Some gr st by auto
        have c1: "code room1 = c1" using get_Room_Some[OF Some] by simp
        have di: "distinct (map id_p (players_table d))" using inv by (simp add: invar_def)
        have pm: "p \<in> set (players_table d)" using get_Player_Some[OF found(1)] by simp
        let ?e = "delete_Player d p"
        have e: "get_Room ?e c = Some room" "players_of ?e c = players_of d c"
          using gr players_of_delete_other[OF di pm, of c] found(2) ne by simp_all
        have "d1 = ?e \<or> d1 = update_Room ?e (room1\<lparr>status := STATUS_WAITING\<rparr>)"
          using leave_room_ok[OF found Some False] lv by (auto split: if_splits)
        then show ?thesis using e c1 ne by (auto simp: get_Room_update_Room_other)
      qed
    qed
  qed
qed

lemma completed_submit_fails:
  assumes inv: "invar d" and gr: "get_Room d c = Some room" and st: "status room = STATUS_COMPLETED"
    and g: "get_Player d pid = Some p" and rc: "room_code p = c"
  shows "\<exists>e. submit_allocation d c1 pid a b now = (Inl e, d)"
proof -
  have "p \<in> set (players_of d c)" using get_Player_Some[OF g] rc by (simp add: players_of_def)
  then have s: "submitted_at p \<noteq> None"
    using invar_room_ok[OF inv gr] st by (auto simp: room_ok_def)
  obtain res d1 where sb: "submit_allocation d c1 pid a b now = (res, d1)"
    by (cases "submit_allocation d c1 pid a b now")
  show ?thesis using inv sb
  proof (cases rule: submit_allocation_invar_cases)
    case (fail e) then show ?thesis using sb by simp
  next
    case (plain p room) then show ?thesis using g s by simp
  next
    case (final p room result) then show ?thesis using g s by simp
  qed
qed

lemma completed_frame_submit_allocation:
  assumes inv: "invar d" and gr: "get_Room d c = Some room" and st: "status room = STATUS_COMPLETED"
    and sb: "submit_allocation d c1 pid a b now = (res, d1)"
  shows "get_Room d1 c = Some room \<and> players_of d1 c = players_of d c"
  using inv sb
proof (cases rule: submit_allocation_invar_cases)
  case (fail e)
  then show ?thesis using gr by simp
next
  case (plain p room1)
  have "room_code p \<noteq> c"
    using completed_submit_fails[OF inv gr st plain(2), of c1 a b now] sb plain(8) by auto
  then show ?thesis using plain(9) gr submit_row_other_room[OF inv plain(2,1)] by simp
next
  case (final p room1 result)
  have ne: "room_code p \<noteq> c"
    using completed_submit_fails[OF inv gr st final(2), of c1 a b now] sb final(10) by auto
  then have ne1: "c1 \<noteq> c" using final(3) by simp
  let ?e = "update_Player d (submit_row a b now p)"
  have ie: "invar ?e" by (rule submit_row_db(2)[OF inv final(2,1)])
  then have di: "distinct (map id_p (players_table ?e))" by (simp add: invar_def)
  have c1: "code room1 = c1" using get_Room_Some[OF final(4)] by simp
  have "players_of (?e\<lparr>players_table := map (fold put_payout (players result)) (players_table ?e)\<rparr>) c
          = players_of ?e c"
    by (rule put_payouts_other_room[OF di _ ne1]) (simp add: final(9))
  then show ?thesis unfolding final(11)
    using gr submit_row_other_room[OF inv final(2,1) ne] c1 ne1
    by (simp add: get_Room_update_Room_other)
qed

lemma completed_frame_step:
  assumes inv: "invar d" and gr: "get_Room d c = Some room" and st: "status room = STATUS_COMPLETED"
    and sp: "step d x = (out, d1)"
  shows "get_Room d1 c = Some room \<and> players_of d1 c = players_of d c"
proof (cases x)
  case (CreateRoom n draws now)
  show ?thesis
  proof (cases "create_room d n draws now")
    case None then show ?thesis using sp CreateRoom gr by simp
  next
    case (Some a)
    then obtain res where "create_room d n draws now = Some (res, d1)"
      using sp CreateRoom by (cases a) simp
    from completed_frame_create_room[OF inv gr this] show ?thesis by (simp add: players_of_def)
  qed
next
  case (JoinRoom c1 name new_id now)
  then obtain res where "join_room d c1 name new_id now = (res, d1)"
    using sp by (cases "join_room d c1 name new_id now") simp
  from completed_frame_join_room[OF inv gr st this] show ?thesis .
next
  case (SubmitAllocation c1 pid a b now)
  then obtain res where "submit_allocation d c1 pid a b now = (res, d1)"
    using sp by (cases "submit_allocation d c1 pid a b now") simp
  from completed_frame_submit_allocation[OF inv gr st this] show ?thesis .
next
  case (LeaveRoom c1 pid)
  then obtain res where "leave_room d c1 pid = (res, d1)"
    using sp by (cases "leave_room d c1 pid") simp
  from completed_frame_leave_room[OF inv gr st this] show ?thesis .
qed

lemma completed_frame_run:
  assumes inv: "invar d" and gr: "get_Room d c = Some room" and st: "status room = STATUS_COMPLETED"
  shows "get_Room (snd (run d ops)) c = Some room \<and> players_of (snd (run d ops)) c = players_of d c"
  using inv gr
proof (induction ops arbitrary: d)
  case Nil then show ?case by simp
next
  case (Cons x xs)
  obtain out d1 where s: "step d x = (out, d1)" by (cases "step d x")
  have i1: "invar d1" using invar_step[OF Cons.prems(1) s] .
  have f: "get_Room d1 c = Some room" "players_of d1 c = players_of d c"
    using completed_frame_step[OF Cons.prems(1,2) st s] by auto
  from Cons.IH[OF i1 f(1)] f(2) s show ?case by (cases "run d1 xs") simp
qed

subsection \<open>Finalizations in a trace\<close>

lemma finalizes_cases:
  assumes "finalizes c (x, out)"
  obtains pid a b now p result where "x = SubmitAllocation c pid a b now"
    "out = Submitted (Inr (p, Some result))"
  using assms by (cases "(c, (x, out))" rule: finalizes.cases) auto

lemma finalizes_step_completed:
  assumes inv: "invar d" and sp: "step d x = (out, d1)" and f: "finalizes c (x, out)"
  shows "\<exists>room. get_Room d1 c = Some room \<and> status room = STATUS_COMPLETED"
proof -
  from f obtain pid a b now p result where x: "x = SubmitAllocation c pid a b now"
    "out = Submitted (Inr (p, Some result))" by (rule finalizes_cases)
  then have sb: "submit_allocation d c pid a b now = (Inr (p, Some result), d1)"
    using sp by (cases "submit_allocation d c pid a b now") simp
  show ?thesis using inv sb
  proof (cases rule: submit_allocation_invar_cases)
    case (final p0 room result0)
    have "get_Room d1 c = Some (room\<lparr>status := STATUS_COMPLETED\<rparr>)"
      unfolding final(11)
      by (rule get_Room_update_Room_same[of _ _ room]) (use final(4) get_Room_Some[OF final(4)] in simp_all)
    then show ?thesis by simp
  qed simp_all
qed

lemma completed_no_finalize:
  assumes inv: "invar d" and gr: "get_Room d c = Some room" and st: "status room = STATUS_COMPLETED"
    and sp: "step d x = (out, d1)"
  shows "\<not> finalizes c (x, out)"
proof
  assume "finalizes c (x, out)"
  then obtain pid a b now p result where x: "x = SubmitAllocation c pid a b now"
    "out = Submitted (Inr (p, Some result))" by (rule finalizes_cases)
  then have sb: "submit_allocation d c pid a b now = (Inr (p, Some result), d1)"
    using sp by (cases "submit_allocation d c pid a b now") simp
  show False using inv sb
  proof (cases rule: submit_allocation_invar_cases)
    case (final p0 room0 result0)
    from completed_submit_fails[OF inv gr st final(2,3), of c a b now] sb show False by simp
  qed simp_all
qed

lemma no_finalize_after_completed:
  assumes inv: "invar d" and gr: "get_Room d c = Some room" and st: "status room = STATUS_COMPLETED"
  shows "filter (finalizes c) (fst (run d ops)) = []"
  using inv gr
proof (induction ops arbitrary: d)
  case Nil then show ?case by simp
next
  case (Cons x xs)
  obtain out d1 where s: "step d x = (out, d1)" by (cases "step d x")
  have i1: "invar d1" using invar_step[OF Cons.prems(1) s] .
  have f: "get_Room d1 c = Some room" using completed_frame_step[OF Cons.prems(1,2) st s] by simp
  have n: "\<not> finalizes c (x, out)" using completed_no_finalize[OF Cons.prems(1,2) st s] .
  from Cons.IH[OF i1 f] n s show ?case by (cases "run d1 xs") simp
qed

lemma finalize_at_most_once:
  assumes inv: "invar d"
  shows "length (filter (finalizes c) (fst (run d ops))) \<le> 1"
  using inv
proof (induction ops arbitrary: d)
  case Nil then show ?case by simp
next
  case (Cons x xs)
  obtain out d1 where s: "step d x = (out, d1)" by (cases "step d x")
  have i1: "invar d1" using invar_step[OF Cons.prems s] .
  show ?case
  proof (cases "finalizes c (x, out)")
    case True
    then obtain room where "get_Room d1 c = Some room" "status room = STATUS_COMPLETED"
      using finalizes_step_completed[OF Cons.prems s] by blast
    from no_finalize_after_completed[OF i1 this, of xs] True s show ?thesis
      by (cases "run d1 xs") simp
  next
    case False
    then show ?thesis using Cons.IH[OF i1] s by (cases "run d1 xs") simp
  qed
qed

lemma finalized_completed:
  assumes inv: "invar d" and ex: "filter (finalizes c) (fst (run d ops)) \<noteq> []"
  shows "\<exists>room. get_Room (snd (run d ops)) c = Some room \<and> status room = STATUS_COMPLETED"
  using inv ex
proof (induction ops arbitrary: d)
  case Nil then show ?case by simp
next
  case (Cons x xs)
  obtain out d1 where s: "step d x = (out, d1)" by (cases "step d x")
  have i1: "invar d1" using invar_step[OF Cons.prems(1) s] .
  show ?case
  proof (cases "finalizes c (x, out)")
    case True
    then obtain room where r: "get_Room d1 c = Some room" "status room = STATUS_COMPLETED"
      using finalizes_step_completed[OF Cons.prems(1) s] by blast
    from completed_frame_run[OF i1 r, of xs] r(2) s show ?thesis by (cases "run d1 xs") auto
  next
    case False
    then have "filter (finalizes c) (fst (run d1 xs)) \<noteq> []"
      using Cons.prems(2) s by (cases "run d1 xs") simp
    from Cons.IH[OF i1 this] s show ?thesis by (cases "run d1 xs") simp
  qed
qed

section \<open>Properties of the room state machine\<close>

text \<open>
  The operations of the coordinator are served one after the other, each on the database
  the one before has committed. A reachable state is \<open>snd (run empty_db ops)\<close> for a
  sequence \<open>ops\<close> of requests; every prefix of a sequence is a sequence, so a property of
  all reachable states holds between any two operations.
\<close>

text \<open>
  C3. In every reachable state, every room has at most \<open>max_players\<close> players. And in any
  state, \<^verbatim>\<open>join_room\<close> on a room whose player count is at least \<open>max_players\<close> raises
  the 400 exception ``Room is full'' (the spec's Conflict) and leaves the database as it
  was: no player is created.
\<close>

theorem capacity_invariant:
  "(\<forall>r\<in>set (rooms_table (snd (run empty_db ops))).
      count_players (snd (run empty_db ops)) (code r) \<le> max_players r) \<and>
   (get_Room d c = Some room \<and> max_players room \<le> count_players d c \<longrightarrow>
      join_room d c name new_id now = (Inl (HTTPException 400 ''Room is full''), d))"
proof -
  have "invar (snd (run empty_db ops))" by (rule invar_reachable)
  then have "\<forall>r\<in>set (rooms_table (snd (run empty_db ops))).
      count_players (snd (run empty_db ops)) (code r) \<le> max_players r"
    by (simp add: invar_def room_ok_def)
  then show ?thesis using join_room_full[of d c room name new_id now] by blast
qed

text \<open>The room for two after both players have joined; a third player is refused.\<close>

theorem capacity_invariant_witness:
  "snd (run empty_db lobby_ops) = lobby_db \<and>
   rooms_table lobby_db = [room01 STATUS_READY] \<and>
   count_players lobby_db ''ROOM01'' = 2 \<and> max_players (room01 STATUS_READY) = 2 \<and>
   get_Room lobby_db ''ROOM01'' = Some (room01 STATUS_READY) \<and>
   join_room lobby_db ''ROOM01'' ''Player 3'' ''p3'' 3 =
     (Inl (HTTPException 400 ''Room is full''), lobby_db)"
proof -
  have r: "snd (run empty_db lobby_ops) = lobby_db" by code_simp
  have e: "rooms_table lobby_db = [room01 STATUS_READY]"
    "count_players lobby_db ''ROOM01'' = 2" "max_players (room01 STATUS_READY) = 2"
    "get_Room lobby_db ''ROOM01'' = Some (room01 STATUS_READY)"
    by code_simp+
  show ?thesis
    using capacity_invariant [of lobby_ops lobby_db "''ROOM01''" "room01 STATUS_READY"
        "''Player 3''" "''p3''" 3] r e
    by simp
qed

lemma join_room_success:
  assumes inv: "invar d" and gr: "get_Room d c = Some room"
    and jn: "join_room d c name new_id now = (Inr p, d1)"
  shows "count_players d1 c = count_players d c + 1 \<and>
         get_Room d1 c = Some (if count_players d1 c = max_players room
                               then room\<lparr>status := STATUS_READY\<rparr> else room) \<and>
         (status room = STATUS_READY \<longrightarrow> False)"
proof -
  have rk: "room_ok d room" "code room = c" using invar_room_ok[OF inv gr] by auto
  have nf: "count_players d c < max_players room"
  proof (rule ccontr)
    assume "\<not> count_players d c < max_players room"
    then have "max_players room \<le> count_players d c" by simp
    from join_room_full[OF gr this] jn show False by simp
  qed
  have nd: "new_id \<notin> set (map id_p (players_table d))"
  proof
    assume "new_id \<in> set (map id_p (players_table d))"
    from join_room_dup[OF gr nf this] jn show False by simp
  qed
  let ?e = "d\<lparr>players_table := players_table d @ [new_player c name new_id now]\<rparr>"
  have ce: "count_players ?e c = count_players d c + 1"
    by (simp add: count_players_def players_of_append new_player_def)
  have ge: "get_Room ?e c = Some room" using gr by simp
  have nr: "status room \<noteq> STATUS_READY" using rk nf by (auto simp: room_ok_def)
  have d1: "d1 = snd (join_room d c name new_id now)" using jn by simp
  have jeq: "snd (join_room d c name new_id now) =
      (if count_players d c + 1 = max_players room
       then update_Room ?e (room\<lparr>status := STATUS_READY\<rparr>) else ?e)"
    by (simp add: join_room_ok[OF gr nf nd])
  show ?thesis
  proof (cases "count_players d c + 1 = max_players room")
    case True
    then have "d1 = update_Room ?e (room\<lparr>status := STATUS_READY\<rparr>)"
      unfolding d1 jeq by simp
    then show ?thesis
      using ce True nr get_Room_update_Room_same[OF ge, of "room\<lparr>status := STATUS_READY\<rparr>"] rk(2)
      by simp
  next
    case False
    then have "d1 = ?e" unfolding d1 jeq by simp
    then show ?thesis using ce False nr ge by simp
  qed
qed

lemma leave_room_success:
  assumes inv: "invar d" and gr: "get_Room d c = Some room"
    and lv: "leave_room d c pid = (Inr (p, room1), d1)"
  shows "count_players d1 c = count_players d c - 1 \<and> get_Room d1 c = Some room1 \<and>
         room1 = (if status room = STATUS_READY then room\<lparr>status := STATUS_WAITING\<rparr> else room) \<and>
         (status room = STATUS_READY \<longrightarrow> count_players d1 c < max_players room) \<and>
         get_Player d pid = Some p \<and> get_Player d1 pid = None"
proof -
  have rk: "room_ok d room" "code room = c" using invar_room_ok[OF inv gr] by auto
  have di: "distinct (map id_p (players_table d))" using inv by (simp add: invar_def)
  obtain p0 where f: "get_Player d pid = Some p0" "room_code p0 = c"
  proof (cases "get_Player d pid")
    case None
    then have "get_Player d pid = None \<or> (\<exists>p. get_Player d pid = Some p \<and> room_code p \<noteq> c)" by simp
    from leave_room_not_found[OF this] lv show ?thesis by simp
  next
    case (Some q)
    show ?thesis
    proof (cases "room_code q = c")
      case True then show ?thesis using Some that by simp
    next
      case False
      then have "get_Player d pid = None \<or> (\<exists>p. get_Player d pid = Some p \<and> room_code p \<noteq> c)"
        using Some by simp
      from leave_room_not_found[OF this] lv show ?thesis by simp
    qed
  qed
  have nc: "status room \<noteq> STATUS_COMPLETED"
  proof
    assume "status room = STATUS_COMPLETED"
    from leave_room_completed[OF f gr this] lv show False by simp
  qed
  note eq = leave_room_ok[OF f gr nc]
  have pm: "p0 \<in> set (players_table d)" "id_p p0 = pid" using get_Player_Some[OF f(1)] by auto
  let ?e = "delete_Player d p0"
  have ce: "count_players ?e c = count_players d c - 1"
    using count_players_delete_same[OF di pm(1)] f(2) by simp
  have ge: "get_Room ?e c = Some room" using gr by simp
  have gp: "get_Player ?e pid = None"
    using pm(2) by (auto simp: get_Player_None delete_Player_def)
  show ?thesis
  proof (cases "status room = STATUS_READY")
    case True
    then have "count_players d c = max_players room" using rk by (simp add: room_ok_def)
    then have lt: "count_players ?e c < max_players room" using ce by simp
    then have "p = p0" "room1 = room\<lparr>status := STATUS_WAITING\<rparr>"
      "d1 = update_Room ?e (room\<lparr>status := STATUS_WAITING\<rparr>)"
      using eq lv True by simp_all
    then show ?thesis
      using ce lt True f(1) gp get_Room_update_Room_same[OF ge, of "room\<lparr>status := STATUS_WAITING\<rparr>"] rk(2)
      by simp
  next
    case False
    then have "p = p0" "room1 = room" "d1 = ?e" using eq lv by simp_all
    then show ?thesis using ce False f(1) gp ge by simp
  qed
qed

text \<open>
  C7. In every reachable state, a room with status Ready has exactly \<open>max_players\<close>
  players, and no request of the sequence that led to the state has finalized it. A
  \<^verbatim>\<open>join_room\<close> that succeeds in a reachable state adds one player to the room, and
  afterwards the room is Ready if and only if the count has reached \<open>max_players\<close>: the
  status is set to Ready in that case and the room is left as it was otherwise. A
  \<^verbatim>\<open>leave_room\<close> that succeeds in a reachable state removes one player; a Ready room is
  then below \<open>max_players\<close> and becomes Waiting, any other room is left as it was.
\<close>

theorem ready_invariant:
  "(\<forall>r\<in>set (rooms_table (snd (run empty_db ops))).
      status r = STATUS_READY \<longrightarrow>
        count_players (snd (run empty_db ops)) (code r) = max_players r \<and>
        filter (finalizes (code r)) (fst (run empty_db ops)) = []) \<and>
   (d = snd (run empty_db ops) \<and> get_Room d c = Some room \<and>
    join_room d c name new_id now = (Inr p, d1) \<longrightarrow>
      count_players d1 c = count_players d c + 1 \<and>
      (\<exists>room1. get_Room d1 c = Some room1 \<and>
         room1 = (if count_players d1 c = max_players room
                  then room\<lparr>status := STATUS_READY\<rparr> else room) \<and>
         (status room1 = STATUS_READY \<longleftrightarrow> count_players d1 c = max_players room1))) \<and>
   (d = snd (run empty_db ops) \<and> get_Room d c = Some room \<and>
    leave_room d c pid = (Inr (p, room1), d1) \<longrightarrow>
      count_players d1 c = count_players d c - 1 \<and> get_Room d1 c = Some room1 \<and>
      room1 = (if status room = STATUS_READY then room\<lparr>status := STATUS_WAITING\<rparr> else room) \<and>
      (status room = STATUS_READY \<longrightarrow> count_players d1 c < max_players room))"
proof (intro conjI ballI impI)
  let ?d = "snd (run empty_db ops)"
  fix r assume r: "r \<in> set (rooms_table ?d)" "status r = STATUS_READY"
  have inv: "invar ?d" by (rule invar_reachable)
  then show "count_players ?d (code r) = max_players r" using r by (simp add: invar_def room_ok_def)
  show "filter (finalizes (code r)) (fst (run empty_db ops)) = []"
  proof (rule ccontr)
    assume "filter (finalizes (code r)) (fst (run empty_db ops)) \<noteq> []"
    from finalized_completed[OF invar_empty this]
    obtain room where g: "get_Room ?d (code r) = Some room" "status room = STATUS_COMPLETED" by blast
    have "room \<in> set (rooms_table ?d)" "code room = code r" using get_Room_Some[OF g(1)] by auto
    moreover have "distinct (map code (rooms_table ?d))" using inv by (simp add: invar_def)
    ultimately have "room = r" using key_inj r(1) by metis
    then show False using g(2) r(2) by simp
  qed
next
  assume a: "d = snd (run empty_db ops) \<and> get_Room d c = Some room \<and>
    join_room d c name new_id now = (Inr p, d1)"
  then have a1: "d = snd (run empty_db ops)" and a2: "get_Room d c = Some room"
    and a3: "join_room d c name new_id now = (Inr p, d1)" by blast+
  have inv: "invar d" unfolding a1 by (rule invar_reachable)
  note j = join_room_success[OF inv a2 a3]
  show "count_players d1 c = count_players d c + 1" using j by simp
  show "\<exists>room1. get_Room d1 c = Some room1 \<and>
         room1 = (if count_players d1 c = max_players room
                  then room\<lparr>status := STATUS_READY\<rparr> else room) \<and>
         (status room1 = STATUS_READY \<longleftrightarrow> count_players d1 c = max_players room1)"
    using j by auto
next
  assume a: "d = snd (run empty_db ops) \<and> get_Room d c = Some room \<and>
    leave_room d c pid = (Inr (p, room1), d1)"
  then have a1: "d = snd (run empty_db ops)" and a2: "get_Room d c = Some room"
    and a3: "leave_room d c pid = (Inr (p, room1), d1)" by blast+
  have inv: "invar d" unfolding a1 by (rule invar_reachable)
  note l = leave_room_success[OF inv a2 a3]
  show "count_players d1 c = count_players d c - 1" using l by simp
  show "get_Room d1 c = Some room1" using l by simp
  show "room1 = (if status room = STATUS_READY then room\<lparr>status := STATUS_WAITING\<rparr> else room)"
    using l by simp
  show "status room = STATUS_READY \<Longrightarrow> count_players d1 c < max_players room" using l by simp
qed

text \<open>
  The room for two: Waiting with one player, Ready when the second has joined, and
  Waiting again when the second has left.
\<close>

theorem ready_invariant_witness:
  "snd (run empty_db lobby_ops) = lobby_db \<and>
   rooms_table lobby_db = [room01 STATUS_READY] \<and>
   count_players lobby_db ''ROOM01'' = 2 \<and> max_players (room01 STATUS_READY) = 2 \<and>
   filter (finalizes ''ROOM01'') (fst (run empty_db lobby_ops)) = [] \<and>
   snd (run empty_db (butlast lobby_ops)) = one_db \<and>
   get_Room one_db ''ROOM01'' = Some (room01 STATUS_WAITING) \<and>
   count_players one_db ''ROOM01'' = 1 \<and>
   join_room one_db ''ROOM01'' ''Player 2'' ''p2'' 2 =
     (Inr (new_player ''ROOM01'' ''Player 2'' ''p2'' 2), lobby_db) \<and>
   get_Room lobby_db ''ROOM01'' = Some (room01 STATUS_READY) \<and>
   leave_room lobby_db ''ROOM01'' ''p2'' =
     (Inr (new_player ''ROOM01'' ''Player 2'' ''p2'' 2, room01 STATUS_WAITING), one_db)"
proof -
  have r: "snd (run empty_db lobby_ops) = lobby_db"
    "snd (run empty_db (butlast lobby_ops)) = one_db"
    "filter (finalizes ''ROOM01'') (fst (run empty_db lobby_ops)) = []"
    by code_simp+
  have e: "rooms_table lobby_db = [room01 STATUS_READY]"
    "count_players lobby_db ''ROOM01'' = 2" "max_players (room01 STATUS_READY) = 2"
    "get_Room one_db ''ROOM01'' = Some (room01 STATUS_WAITING)"
    "count_players one_db ''ROOM01'' = 1"
    "get_Room lobby_db ''ROOM01'' = Some (room01 STATUS_READY)"
    by code_simp+
  have j: "join_room one_db ''ROOM01'' ''Player 2'' ''p2'' 2 =
     (Inr (new_player ''ROOM01'' ''Player 2'' ''p2'' 2), lobby_db)"
    by code_simp
  have l: "leave_room lobby_db ''ROOM01'' ''p2'' =
     (Inr (new_player ''ROOM01'' ''Player 2'' ''p2'' 2, room01 STATUS_WAITING), one_db)"
    by code_simp
  show ?thesis
    using ready_invariant [of lobby_ops lobby_db "''ROOM01''" "room01 STATUS_READY" "''Player 3''"
        "''p3''" 3 "new_player ''ROOM01'' ''Player 2'' ''p2'' 2" one_db "''p2''" "room01 STATUS_WAITING"]
      ready_invariant [of "butlast lobby_ops" one_db "''ROOM01''" "room01 STATUS_WAITING" "''Player 2''"
        "''p2''" 2 "new_player ''ROOM01'' ''Player 2'' ''p2'' 2" lobby_db]
      r e j l
    by simp
qed

lemma completed_leave_fails:
  assumes inv: "invar d" and gr: "get_Room d c = Some room" and st: "status room = STATUS_COMPLETED"
  shows "\<exists>e. leave_room d c pid = (Inl e, d)"
proof -
  consider (nf) "get_Player d pid = None \<or> (\<exists>p. get_Player d pid = Some p \<and> room_code p \<noteq> c)"
    | (found) p where "get_Player d pid = Some p" "room_code p = c"
    by (cases "get_Player d pid") auto
  then show ?thesis
  proof cases
    case nf
    from leave_room_not_found[OF nf] show ?thesis by simp
  next
    case found
    from leave_room_completed[OF found gr st] show ?thesis by simp
  qed
qed

text \<open>
  C6. Let room \<open>c\<close> be Completed in a reachable state \<open>d\<close>. Then no request changes the
  room's record or the rows of its players, whatever the request is and to whichever
  room it goes, and so the room stays Completed, with the same players, in every state
  reachable from \<open>d\<close>. In particular: \<^verbatim>\<open>leave_room\<close> for a player of the room raises the
  400 exception ``Game already completed'' (the spec's Conflict), \<^verbatim>\<open>leave_room\<close> on the
  room raises for every player id, and nothing is deleted; \<^verbatim>\<open>submit_allocation\<close> for a
  player of the room raises, whatever the other arguments are; \<^verbatim>\<open>join_room\<close> on the room
  raises ``Room is full''. Each of them leaves the database as it was.
\<close>

theorem completed_terminal:
  assumes "d = snd (run empty_db ops)"
    and "get_Room d c = Some room" and "status room = STATUS_COMPLETED"
  shows "(\<forall>x. get_Room (snd (step d x)) c = Some room \<and>
              players_of (snd (step d x)) c = players_of d c) \<and>
         (\<forall>ops1. get_Room (snd (run d ops1)) c = Some room \<and>
                 players_of (snd (run d ops1)) c = players_of d c) \<and>
         (\<forall>p\<in>set (players_of d c).
            leave_room d c (id_p p) = (Inl (HTTPException 400 ''Game already completed''), d)) \<and>
         (\<forall>pid. \<exists>e. leave_room d c pid = (Inl e, d)) \<and>
         (\<forall>p\<in>set (players_of d c). \<forall>c1 a b now.
            \<exists>e. submit_allocation d c1 (id_p p) a b now = (Inl e, d)) \<and>
         (\<forall>name new_id now.
            join_room d c name new_id now = (Inl (HTTPException 400 ''Room is full''), d))"
proof -
  have inv: "invar d" unfolding assms(1) by (rule invar_reachable)
  note gr = assms(2) and st = assms(3)
  have di: "distinct (map id_p (players_table d))" using inv by (simp add: invar_def)
  have member: "get_Player d (id_p p) = Some p \<and> room_code p = c" if "p \<in> set (players_of d c)" for p
    using that get_Player_member[OF di, of p] by (simp add: players_of_def)
  have 1: "get_Room (snd (step d x)) c = Some room \<and> players_of (snd (step d x)) c = players_of d c"
    for x using completed_frame_step[OF inv gr st, of x] by (cases "step d x") simp
  have 2: "get_Room (snd (run d ops1)) c = Some room \<and>
           players_of (snd (run d ops1)) c = players_of d c" for ops1
    by (rule completed_frame_run[OF inv gr st])
  have 3: "leave_room d c (id_p p) = (Inl (HTTPException 400 ''Game already completed''), d)"
    if "p \<in> set (players_of d c)" for p
    using member[OF that] leave_room_completed[OF _ _ gr st] by blast
  have 4: "\<exists>e. leave_room d c pid = (Inl e, d)" for pid
    by (rule completed_leave_fails[OF inv gr st])
  have 5: "\<exists>e. submit_allocation d c1 (id_p p) a b now = (Inl e, d)"
    if "p \<in> set (players_of d c)" for p c1 a b now
    using member[OF that] completed_submit_fails[OF inv gr st] by blast
  have "max_players room \<le> count_players d c"
    using invar_room_ok[OF inv gr] st by (auto simp: room_ok_def)
  then have 6: "join_room d c name new_id now = (Inl (HTTPException 400 ''Room is full''), d)"
    for name new_id now by (rule join_room_full[OF gr])
  show ?thesis using 1 2 3 4 5 6 by blast
qed

text \<open>The room for two after both submissions.\<close>

theorem completed_terminal_witness:
  "snd (run empty_db game_ops) = done_db \<and>
   get_Room done_db ''ROOM01'' = Some (room01 STATUS_COMPLETED) \<and>
   players_of done_db ''ROOM01'' = [alice\<lparr>payout := Some 175\<rparr>, bob\<lparr>payout := Some 75\<rparr>] \<and>
   leave_room done_db ''ROOM01'' ''p1'' =
     (Inl (HTTPException 400 ''Game already completed''), done_db) \<and>
   leave_room done_db ''ROOM01'' ''nobody'' = (Inl (HTTPException 404 ''Player not found''), done_db) \<and>
   submit_allocation done_db ''ROOM01'' ''p2'' 50 50 9 =
     (Inl (HTTPException 400 ''Allocation already submitted''), done_db) \<and>
   join_room done_db ''ROOM01'' ''Player 3'' ''p3'' 3 =
     (Inl (HTTPException 400 ''Room is full''), done_db) \<and>
   snd (step done_db (CreateRoom 3 [''ROOM01'', ''ROOM02''] 7)) =
     done_db\<lparr>rooms_table := [room01 STATUS_COMPLETED,
        \<lparr>code = ''ROOM02'', max_players = 3, created_at = 7, status = STATUS_WAITING\<rparr>]\<rparr>"
proof -
  have r: "snd (run empty_db game_ops) = done_db" by code_simp
  have g: "get_Room done_db ''ROOM01'' = Some (room01 STATUS_COMPLETED)" by code_simp
  have s: "status (room01 STATUS_COMPLETED) = STATUS_COMPLETED" by code_simp
  have e: "players_of done_db ''ROOM01'' = [alice\<lparr>payout := Some 175\<rparr>, bob\<lparr>payout := Some 75\<rparr>]"
    "leave_room done_db ''ROOM01'' ''p1'' =
       (Inl (HTTPException 400 ''Game already completed''), done_db)"
    "leave_room done_db ''ROOM01'' ''nobody'' = (Inl (HTTPException 404 ''Player not found''), done_db)"
    "submit_allocation done_db ''ROOM01'' ''p2'' 50 50 9 =
       (Inl (HTTPException 400 ''Allocation already submitted''), done_db)"
    "join_room done_db ''ROOM01'' ''Player 3'' ''p3'' 3 =
       (Inl (HTTPException 400 ''Room is full''), done_db)"
    "snd (step done_db (CreateRoom 3 [''ROOM01'', ''ROOM02''] 7)) =
     done_db\<lparr>rooms_table := [room01 STATUS_COMPLETED,
        \<lparr>code = ''ROOM02'', max_players = 3, created_at = 7, status = STATUS_WAITING\<rparr>]\<rparr>"
    by code_simp+
  show ?thesis
    using completed_terminal [OF r [symmetric] g s] r g e by simp
qed

subsection \<open>A submission that succeeds\<close>

lemma get_Player_submit_row:
  assumes inv: "invar d" and g: "get_Player d pid = Some p0" and ab: "a + b = 100"
  shows "get_Player (update_Player d (submit_row a b now p0)) i =
           (if i = pid then Some (submit_row a b now p0) else get_Player d i)"
proof -
  let ?f = "\<lambda>x. if id_p x = pid then submit_row a b now x else x"
  have "get_Player (update_Player d (submit_row a b now p0)) i = map_option ?f (get_Player d i)"
    unfolding submit_row_db(1)[OF inv g ab]
    by (rule get_Player_map) (simp add: submit_row_def)
  moreover have "map_option ?f (get_Player d i) = get_Player d i" if "i \<noteq> pid"
  proof (cases "get_Player d i")
    case (Some x)
    then show ?thesis using get_Player_Some[OF Some] that by simp
  qed simp
  ultimately show ?thesis using g get_Player_Some[OF g] by simp
qed

lemma distinct_map_sort_key:
  "distinct (map f (sort_key k xs)) \<longleftrightarrow> distinct (map f xs)"
  by (simp add: distinct_map)

lemma payouts_written:
  assumes di: "distinct (map id_p (players_table e))"
    and ids: "map player_id (players result) = map id_p (sort_key joined_at (players_of e c))"
    and q: "q \<in> set (players_of (e\<lparr>players_table := map (fold put_payout (players result))
                                       (players_table e)\<rparr>) c)"
  shows "\<exists>po\<in>set (players result). player_id po = id_p q \<and> payout q = Some (payout_pp po)"
proof -
  let ?g = "fold put_payout (players result)"
  have "players_of (e\<lparr>players_table := map ?g (players_table e)\<rparr>) c = map ?g (players_of e c)"
    by (rule players_of_map) simp
  then obtain q0 where q0: "q0 \<in> set (players_of e c)" "q = ?g q0" using q by auto
  have "distinct (map id_p (players_of e c))"
    using di by (simp add: players_of_def distinct_map_filter)
  then have dp: "distinct (map player_id (players result))"
    unfolding ids by (simp add: distinct_map_sort_key)
  have "id_p q0 \<in> set (map player_id (players result))" unfolding ids using q0(1) by simp
  then obtain po where po: "po \<in> set (players result)" "player_id po = id_p q0" by auto
  from fold_put_payout_hit[OF dp po] have "?g q0 = q0\<lparr>payout := Some (payout_pp po)\<rparr>" .
  then show ?thesis using po q0(2) by auto
qed

lemma submit_allocation_success:
  assumes inv: "invar d" and sb: "submit_allocation d c pid a b now = (Inr (p, res), d1)"
  shows "\<exists>room p0.
           get_Room d c = Some room \<and> get_Player d pid = Some p0 \<and> room_code p0 = c \<and>
           submitted_at p0 = None \<and> a + b = 100 \<and> 2 \<le> count_players d c \<and>
           get_Player d1 pid = Some p \<and>
           p\<lparr>payout := None\<rparr> = (submit_row a b now p0)\<lparr>payout := None\<rparr> \<and>
           (res \<noteq> None \<longleftrightarrow>
              (\<forall>q\<in>set (players_of d1 c). submitted_at q \<noteq> None) \<and>
              count_players d1 c = max_players room) \<and>
           (res = None \<longrightarrow> d1 = update_Player d (submit_row a b now p0)) \<and>
           (\<forall>result. res = Some result \<longrightarrow>
              calculate_payouts
                (sort_key joined_at (players_of (update_Player d (submit_row a b now p0)) c))
                = Inr result \<and>
              rooms_table d1 = rooms_table (update_Room d (room\<lparr>status := STATUS_COMPLETED\<rparr>)) \<and>
              get_Room d1 c = Some (room\<lparr>status := STATUS_COMPLETED\<rparr>) \<and>
              players_table d1 = map (fold put_payout (players result))
                 (players_table (update_Player d (submit_row a b now p0))) \<and>
              (\<forall>q\<in>set (players_of d1 c).
                 \<exists>po\<in>set (players result). player_id po = id_p q \<and> payout q = Some (payout_pp po)))"
  using inv sb
proof (cases rule: submit_allocation_invar_cases)
  case (fail e)
  then show ?thesis by simp
next
  case (plain p0 room)
  let ?e = "update_Player d (submit_row a b now p0)"
  have ie: "invar ?e" by (rule submit_row_db(2)[OF inv plain(2,1)])
  have ge: "get_Room ?e c = Some room" using plain(4) by simp
  have "count_players ?e c \<le> max_players room" "code room = c"
    using invar_room_ok[OF ie ge] by (auto simp: room_ok_def)
  moreover have "2 \<le> count_players ?e c" using submit_row_db(3)[OF inv plain(2,1)] plain(5) by simp
  ultimately have n: "\<not> ((\<forall>q\<in>set (players_of ?e c). submitted_at q \<noteq> None) \<and>
              count_players ?e c = max_players room)"
    using plain(7) by (auto simp: all_players_submitted_iff)
  have "get_Player ?e pid = Some (submit_row a b now p0)"
    using get_Player_submit_row[OF inv plain(2,1)] by simp
  then show ?thesis using plain n by auto
next
  case (final p0 room result)
  let ?e = "update_Player d (submit_row a b now p0)"
  let ?g = "fold put_payout (players result)"
  have ie: "invar ?e" by (rule submit_row_db(2)[OF inv final(2,1)])
  have di: "distinct (map id_p (players_table ?e))" using ie by (simp add: invar_def)
  have i1: "invar d1" by (rule invar_submit_allocation[OF inv sb])
  have cr: "code room = c" using get_Room_Some[OF final(4)] by simp
  have g1: "get_Room d1 c = Some (room\<lparr>status := STATUS_COMPLETED\<rparr>)"
    unfolding final(11)
    by (rule get_Room_update_Room_same[of _ _ room]) (use final(4) cr in simp_all)
  have y: "(\<forall>q\<in>set (players_of d1 c). submitted_at q \<noteq> None) \<and>
              count_players d1 c = max_players room"
    using invar_room_ok[OF i1 g1] by (auto simp: room_ok_def)
  have gp: "get_Player d1 pid = Some (?g (submit_row a b now p0))"
    unfolding final(11) using get_Player_submit_row[OF inv final(2,1), of now pid]
    by (simp add: get_Player_map)
  have pe: "p = ?g (submit_row a b now p0)" "res = Some result" using final(10) by simp_all
  have pp: "p\<lparr>payout := None\<rparr> = (submit_row a b now p0)\<lparr>payout := None\<rparr>"
    unfolding pe(1) by (rule Player.equality) simp_all
  have rt: "rooms_table d1 = rooms_table (update_Room d (room\<lparr>status := STATUS_COMPLETED\<rparr>))"
    unfolding final(11) by (simp add: update_Room_def update_Player_def)
  have pt: "players_table d1 = map ?g (players_table ?e)"
    unfolding final(11) by simp
  have w: "\<forall>q\<in>set (players_of d1 c).
                 \<exists>po\<in>set (players result). player_id po = id_p q \<and> payout q = Some (payout_pp po)"
  proof
    fix q assume "q \<in> set (players_of d1 c)"
    then have "q \<in> set (players_of (?e\<lparr>players_table := map ?g (players_table ?e)\<rparr>) c)"
      unfolding final(11) by simp
    from payouts_written[OF di final(9) this]
    show "\<exists>po\<in>set (players result). player_id po = id_p q \<and> payout q = Some (payout_pp po)" .
  qed
  show ?thesis
    using final(1-6) final(8) gp pe pp y rt g1 pt w by auto
qed

text \<open>
  C2. In the trace of any sequence of requests, at most one request finalizes room \<open>c\<close>.
  And for a \<^verbatim>\<open>submit_allocation\<close> that succeeds in a reachable state \<open>d\<close>, returning
  player \<open>p\<close>, result \<open>res\<close> and database \<open>d1\<close>: the room \<open>room\<close> and the row \<open>p0\<close> of the
  player exist in \<open>d\<close>, and a result is returned (\<open>res \<noteq> None\<close>, the finalization has run
  inside the call) if and only if in \<open>d1\<close> all players of the room have \<open>submitted_at\<close> set
  and their number is \<open>max_players\<close>. Without finalization \<open>d1\<close> is \<open>d\<close> with the
  submitted row committed. With finalization the result is \<^verbatim>\<open>calculate_payouts\<close> of the
  room's players after the submission, ordered by \<open>joined_at\<close>; the room's record in \<open>d1\<close>
  has status Completed and is otherwise unchanged; and every player of the room has in
  \<open>d1\<close> the payout of the record of the result that carries the player's id.
\<close>

theorem finalize_once:
  "length (filter (finalizes c) (fst (run empty_db ops))) \<le> 1 \<and>
   (d = snd (run empty_db ops) \<and> submit_allocation d c pid a b now = (Inr (p, res), d1) \<longrightarrow>
      (\<exists>room p0.
         get_Room d c = Some room \<and> get_Player d pid = Some p0 \<and>
         (res \<noteq> None \<longleftrightarrow>
            (\<forall>q\<in>set (players_of d1 c). submitted_at q \<noteq> None) \<and>
            count_players d1 c = max_players room) \<and>
         (res = None \<longrightarrow> d1 = update_Player d (submit_row a b now p0)) \<and>
         (\<forall>result. res = Some result \<longrightarrow>
            calculate_payouts
              (sort_key joined_at (players_of (update_Player d (submit_row a b now p0)) c))
              = Inr result \<and>
            get_Room d1 c = Some (room\<lparr>status := STATUS_COMPLETED\<rparr>) \<and>
            (\<forall>q\<in>set (players_of d1 c).
               \<exists>po\<in>set (players result).
                 player_id po = id_p q \<and> payout q = Some (payout_pp po)))))"
proof (intro conjI impI)
  show "length (filter (finalizes c) (fst (run empty_db ops))) \<le> 1"
    by (rule finalize_at_most_once[OF invar_empty])
next
  assume a: "d = snd (run empty_db ops) \<and> submit_allocation d c pid a b now = (Inr (p, res), d1)"
  then have a1: "d = snd (run empty_db ops)"
    and a2: "submit_allocation d c pid a b now = (Inr (p, res), d1)" by blast+
  have inv: "invar d" unfolding a1 by (rule invar_reachable)
  from submit_allocation_success[OF inv a2]
  obtain room p0 where
    "get_Room d c = Some room" "get_Player d pid = Some p0"
    "res \<noteq> None \<longleftrightarrow>
            (\<forall>q\<in>set (players_of d1 c). submitted_at q \<noteq> None) \<and>
            count_players d1 c = max_players room"
    "res = None \<longrightarrow> d1 = update_Player d (submit_row a b now p0)"
    "\<forall>result. res = Some result \<longrightarrow>
            calculate_payouts
              (sort_key joined_at (players_of (update_Player d (submit_row a b now p0)) c))
              = Inr result \<and>
            get_Room d1 c = Some (room\<lparr>status := STATUS_COMPLETED\<rparr>) \<and>
            (\<forall>q\<in>set (players_of d1 c).
               \<exists>po\<in>set (players result).
                 player_id po = id_p q \<and> payout q = Some (payout_pp po))"
    by blast
  then show "\<exists>room p0.
         get_Room d c = Some room \<and> get_Player d pid = Some p0 \<and>
         (res \<noteq> None \<longleftrightarrow>
            (\<forall>q\<in>set (players_of d1 c). submitted_at q \<noteq> None) \<and>
            count_players d1 c = max_players room) \<and>
         (res = None \<longrightarrow> d1 = update_Player d (submit_row a b now p0)) \<and>
         (\<forall>result. res = Some result \<longrightarrow>
            calculate_payouts
              (sort_key joined_at (players_of (update_Player d (submit_row a b now p0)) c))
              = Inr result \<and>
            get_Room d1 c = Some (room\<lparr>status := STATUS_COMPLETED\<rparr>) \<and>
            (\<forall>q\<in>set (players_of d1 c).
               \<exists>po\<in>set (players result).
                 player_id po = id_p q \<and> payout q = Some (payout_pp po)))"
    by blast
qed

text \<open>
  The room for two: the first submission returns no result, the second one finalizes the
  room, and that is the only finalization of the whole sequence.
\<close>

theorem finalize_once_witness:
  "length (filter (finalizes ''ROOM01'') (fst (run empty_db game_ops))) = 1 \<and>
   snd (run empty_db lobby_ops) = lobby_db \<and>
   submit_allocation lobby_db ''ROOM01'' ''p1'' 100 0 5 = (Inr (alice, None), half_db) \<and>
   snd (run empty_db half_ops) = half_db \<and>
   submit_allocation half_db ''ROOM01'' ''p2'' 0 100 6 =
     (Inr (bob\<lparr>payout := Some 75\<rparr>, Some settled), done_db) \<and>
   get_Room done_db ''ROOM01'' = Some (room01 STATUS_COMPLETED) \<and>
   players_of done_db ''ROOM01'' = [alice\<lparr>payout := Some 175\<rparr>, bob\<lparr>payout := Some 75\<rparr>] \<and>
   count_players done_db ''ROOM01'' = 2"
proof -
  have n: "length (filter (finalizes ''ROOM01'') (fst (run empty_db game_ops))) = 1" by code_simp
  have r: "snd (run empty_db lobby_ops) = lobby_db" "snd (run empty_db half_ops) = half_db"
    by code_simp+
  have s1: "submit_allocation lobby_db ''ROOM01'' ''p1'' 100 0 5 = (Inr (alice, None), half_db)"
    by code_simp
  have s2: "submit_allocation half_db ''ROOM01'' ''p2'' 0 100 6 =
     (Inr (bob\<lparr>payout := Some 75\<rparr>, Some settled), done_db)"
    by code_simp
  have e: "get_Room done_db ''ROOM01'' = Some (room01 STATUS_COMPLETED)"
    "players_of done_db ''ROOM01'' = [alice\<lparr>payout := Some 175\<rparr>, bob\<lparr>payout := Some 75\<rparr>]"
    "count_players done_db ''ROOM01'' = 2"
    by code_simp+
  show ?thesis
    using finalize_once [of "''ROOM01''" game_ops]
      finalize_once [of "''ROOM01''" half_ops half_db "''p2''" 0 100 6
        "bob\<lparr>payout := Some 75\<rparr>" "Some settled" done_db]
      finalize_once [of "''ROOM01''" lobby_ops lobby_db "''p1''" 100 0 5 alice None half_db]
      n r s1 s2 e
    by simp
qed

subsection \<open>A submitted row under the operations\<close>

lemma create_room_get_Player:
  "create_room d n draws now = Some (res, d1) \<Longrightarrow> get_Player d1 i = get_Player d i"
  by (auto simp: create_room_def insert_Room_def get_Player_def Let_def
           split: option.splits if_splits)

lemma join_room_get_Player:
  "join_room d c name new_id now = (res, d1) \<Longrightarrow> get_Player d i = Some p \<Longrightarrow>
     get_Player d1 i = Some p"
  by (auto simp: join_room_def get_room_def insert_Player_def get_Player_def Let_def
                 update_Room_def find_append_Some
           split: option.splits if_splits)

lemma get_Player_delete_same: "get_Player (delete_Player d p) (id_p p) = None"
  by (auto simp: get_Player_None delete_Player_def)

lemma leave_room_get_Player:
  assumes "leave_room d c pid = (res, d1)" "get_Player d i = Some p"
  shows "get_Player d1 i = None \<or> get_Player d1 i = Some p"
proof -
  have "d1 = d \<or> (\<exists>q room. d1 = delete_Player d q \<or> d1 = update_Room (delete_Player d q) room)"
    using assms(1)
    by (auto simp: leave_room_def get_room_def Let_def split: option.splits if_splits)
  moreover have "get_Player (delete_Player d q) i = None \<or> get_Player (delete_Player d q) i = Some p"
    for q using assms(2) get_Player_delete_other[of i q d] get_Player_delete_same[of d q]
    by (cases "i = id_p q") auto
  ultimately show ?thesis using assms(2) by (metis get_Player_update_Room)
qed

lemma submit_allocation_get_Player:
  assumes inv: "invar d" and sb: "submit_allocation d c pid a b now = (res, d1)"
    and g: "get_Player d i = Some p" and s: "submitted_at p \<noteq> None"
  shows "\<exists>p1. get_Player d1 i = Some p1 \<and> p1\<lparr>payout := None\<rparr> = p\<lparr>payout := None\<rparr>"
  using inv sb
proof (cases rule: submit_allocation_invar_cases)
  case (fail e)
  then show ?thesis using g by simp
next
  case (plain p0 room)
  have "i \<noteq> pid" using plain(2,6) g s by auto
  then show ?thesis
    using get_Player_submit_row[OF inv plain(2,1), of now i] g plain(9) by simp
next
  case (final p0 room result)
  have "i \<noteq> pid" using final(2,6) g s by auto
  then have "get_Player (update_Player d (submit_row a b now p0)) i = Some p"
    using get_Player_submit_row[OF inv final(2,1), of now i] g by simp
  then have "get_Player d1 i = Some (fold put_payout (players result) p)"
    unfolding final(11) by (simp add: get_Player_map)
  moreover have "(fold put_payout (players result) p)\<lparr>payout := None\<rparr> = p\<lparr>payout := None\<rparr>"
    by (rule Player.equality) simp_all
  ultimately show ?thesis by simp
qed

lemma submitted_step:
  assumes inv: "invar d" and sp: "step d x = (out, d1)"
    and g: "get_Player d i = Some p" and s: "submitted_at p \<noteq> None"
  shows "get_Player d1 i = None \<or>
         (\<exists>p1. get_Player d1 i = Some p1 \<and> p1\<lparr>payout := None\<rparr> = p\<lparr>payout := None\<rparr>)"
proof (cases x)
  case (CreateRoom n draws now)
  show ?thesis
  proof (cases "create_room d n draws now")
    case None then show ?thesis using sp CreateRoom g by simp
  next
    case (Some r)
    then obtain res where "create_room d n draws now = Some (res, d1)"
      using sp CreateRoom by (cases r) simp
    from create_room_get_Player[OF this] g show ?thesis by simp
  qed
next
  case (JoinRoom c name new_id now)
  then obtain res where "join_room d c name new_id now = (res, d1)"
    using sp by (cases "join_room d c name new_id now") simp
  from join_room_get_Player[OF this g] show ?thesis by simp
next
  case (SubmitAllocation c pid a b now)
  then obtain res where "submit_allocation d c pid a b now = (res, d1)"
    using sp by (cases "submit_allocation d c pid a b now") simp
  from submit_allocation_get_Player[OF inv this g s] show ?thesis by simp
next
  case (LeaveRoom c pid)
  then obtain res where "leave_room d c pid = (res, d1)"
    using sp by (cases "leave_room d c pid") simp
  from leave_room_get_Player[OF this g] show ?thesis by auto
qed



section \<open>The sum of the payouts\<close>

lemma fl_nonneg: "0 \<le> y \<Longrightarrow> 0 \<le> fl y"
proof -
  assume y: "0 \<le> y"
  have "\<bar>fl y - y\<bar> \<le> y / 2 ^ 53" using fl_error[of y] y by simp
  moreover have "y / 2 ^ 53 \<le> y" using y by (simp add: divide_le_eq)
  ultimately show "0 \<le> fl y" by linarith
qed

lemma py_round_error:
  assumes "0 \<le> x" "x \<le> 252"
  shows "\<bar>py_round x 2 - x\<bar> \<le> 1 / 200 + 253 / 2 ^ 53"
proof -
  define k where "k = rhe (x * 10 ^ 2)"
  have "\<bar>of_int k - x * 100\<bar> \<le> 1 / 2" unfolding k_def using rhe_bound[of "x * 10 ^ 2"] by simp
  then have kx: "\<bar>of_int k / 100 - x\<bar> \<le> 1 / 200" by linarith
  then have kb: "\<bar>of_int k / 100 :: rat\<bar> \<le> 253" using assms by linarith
  have "\<bar>fl (of_int k / 100) - of_int k / 100\<bar> \<le> \<bar>of_int k / 100 :: rat\<bar> / 2 ^ 53"
    by (rule fl_error)
  also have "\<dots> \<le> 253 / 2 ^ 53" using kb by (simp add: divide_right_mono)
  finally have "\<bar>fl (of_int k / 100) - of_int k / 100\<bar> \<le> 253 / 2 ^ 53" .
  moreover have "py_round x 2 = fl (of_int k / 100)" by (simp add: py_round_def k_def)
  ultimately show ?thesis using kx by linarith
qed

lemma payout_error:
  assumes a: "0 \<le> a" "a \<le> 100" and q: "0 \<le> q" "q \<le> 150"
  shows "\<bar>py_round (float_add (float_of_int a) (fl q)) 2 - (of_int a + q)\<bar>
           \<le> 1 / 200 + 1 / 2 ^ 43"
proof -
  have fa: "float_of_int a = of_int a" using a by (intro float_of_int_exact) simp
  have ar: "(0::rat) \<le> of_int a" "(of_int a :: rat) \<le> 100" using a by simp_all
  have "\<bar>fl q - q\<bar> \<le> \<bar>q\<bar> / 2 ^ 53" by (rule fl_error)
  also have "\<dots> \<le> 150 / 2 ^ 53" using q by (simp add: divide_right_mono)
  finally have s: "\<bar>fl q - q\<bar> \<le> 150 / 2 ^ 53" .
  have small: "(150 :: rat) / 2 ^ 53 \<le> 1" by simp
  have fq: "0 \<le> fl q" using q(1) by (rule fl_nonneg)
  have sb: "0 \<le> of_int a + fl q" "of_int a + fl q \<le> 251" using s q ar small fq by linarith+
  define x where "x = fl (of_int a + fl q)"
  have "\<bar>x - (of_int a + fl q)\<bar> \<le> \<bar>of_int a + fl q\<bar> / 2 ^ 53"
    unfolding x_def by (rule fl_error)
  also have "\<dots> \<le> 251 / 2 ^ 53" using sb by (simp add: divide_right_mono)
  finally have xe: "\<bar>x - (of_int a + fl q)\<bar> \<le> 251 / 2 ^ 53" .
  have small2: "(251 :: rat) / 2 ^ 53 \<le> 1" by simp
  have xb: "0 \<le> x" "x \<le> 252"
  proof -
    show "x \<le> 252" using xe sb small2 by linarith
    show "0 \<le> x" unfolding x_def using sb(1) by (rule fl_nonneg)
  qed
  define u :: rat where "u = 1 / 2 ^ 53"
  have e1: "\<bar>py_round x 2 - x\<bar> \<le> 1 / 200 + 253 * u"
    using py_round_error[OF xb] by (simp add: u_def)
  have e2: "\<bar>x - (of_int a + fl q)\<bar> \<le> 251 * u" using xe by (simp add: u_def)
  have e3: "\<bar>fl q - q\<bar> \<le> 150 * u" using s by (simp add: u_def)
  have "\<bar>py_round x 2 - (of_int a + q)\<bar> \<le> 1 / 200 + 654 * u"
    using e1 e2 e3 by linarith
  also have "654 * u \<le> 1 / 2 ^ 43" by (simp add: u_def)
  finally have "\<bar>py_round x 2 - (of_int a + q)\<bar> \<le> 1 / 200 + 1 / 2 ^ 43" by simp
  then show ?thesis by (simp only: x_def float_add_def fa)
qed

text \<open>
  C5. Let every player of a non-empty list have allocations that are not negative and
  sum to 100 (and let the list have fewer than \<open>2 ^ 44\<close> players). Then
  \<^verbatim>\<open>calculate_payouts\<close> returns a result \<open>r\<close>, and the sum of the payouts differs from the
  sum of the \<open>allocation_a\<close> plus \<open>boosted_pool\<close> by at most 0.005 per player, the error
  of rounding one payout to 2 decimals, plus \<open>2 ^ - 43\<close> per player for the float
  operations; the sums are exact sums of the floats. \<open>total_b_pool\<close> is the integer sum
  of the \<open>allocation_b\<close> and \<open>boosted_pool\<close> is \<open>total_b_pool * 1.5\<close> rounded to 2
  decimals: it is \<^verbatim>\<open>round(total_b_pool * 1.5, 2)\<close> of Python, it is the float nearest to
  \<open>k / 100\<close> for the integer \<open>k\<close> nearest to \<open>total_b_pool * 1.5 * 100\<close>, and here it is
  \<open>total_b_pool * 1.5\<close> itself, because that number has no more than one decimal.
\<close>

theorem payout_sum:
  assumes ne: "ps \<noteq> []"
    and al: "\<forall>p\<in>set ps. \<exists>a b. allocation_a p = Some a \<and> allocation_b p = Some b \<and>
                           0 \<le> a \<and> 0 \<le> b \<and> a + b = 100"
    and len: "length ps < 2 ^ 44"
  shows "\<exists>r. calculate_payouts ps = Inr r \<and>
           \<bar>(\<Sum>po\<leftarrow>players r. payout_pp po) -
              (of_int (\<Sum>p\<leftarrow>ps. the (allocation_a p)) + boosted_pool r)\<bar>
             \<le> of_nat (length ps) * (1 / 200 + 1 / 2 ^ 43) \<and>
           total_b_pool r = of_int (\<Sum>p\<leftarrow>ps. the (allocation_b p)) \<and>
           boosted_pool r = py_round (float_mul (total_b_pool r) (3 / 2)) 2 \<and>
           (\<exists>k. nearest_even (total_b_pool r * (3 / 2) * 100) k \<and>
                boosted_pool r = fl (of_int k / 100)) \<and>
           boosted_pool r = total_b_pool r * 3 / 2"
proof -
  define n where "n = length ps"
  define t where "t = (\<Sum>p\<leftarrow>ps. the (allocation_b p))"
  define B where "B = py_round (float_mul (float_of_int t) (3 / 2)) 2"
  define q where "q = B / float_of_int (int n)"
  define pay :: "Player \<Rightarrow> pyfloat" where
    "pay = (\<lambda>p. py_round (float_add (float_of_int (the (allocation_a p))) (fl q)) 2)"
  define r where
    "r = \<lparr>total_b_pool = float_of_int t, boosted_pool = B,
          players = map (\<lambda>p. \<lparr>player_id = id_p p, display_name_pp = display_name p,
                                payout_pp = pay p\<rparr>) ps\<rparr>"
  have sel: "total_b_pool r = float_of_int t" "boosted_pool r = B"
    "map payout_pp (players r) = map pay ps"
    by (simp_all add: r_def o_def)
  have al': "\<forall>p\<in>set ps. allocation_a p \<noteq> None \<and> allocation_b p \<noteq> None"
  proof
    fix p assume "p \<in> set ps"
    with al have "\<exists>a b. allocation_a p = Some a \<and> allocation_b p = Some b \<and>
                           0 \<le> a \<and> 0 \<le> b \<and> a + b = 100" by (rule bspec)
    then obtain a b where "allocation_a p = Some a" "allocation_b p = Some b" by blast
    then show "allocation_a p \<noteq> None \<and> allocation_b p \<noteq> None" by simp
  qed
  have rng: "0 \<le> the (allocation_a p) \<and> the (allocation_a p) \<le> 100 \<and>
             0 \<le> the (allocation_b p) \<and> the (allocation_b p) \<le> 100" if pm: "p \<in> set ps" for p
  proof -
    from al pm have "\<exists>a b. allocation_a p = Some a \<and> allocation_b p = Some b \<and>
                           0 \<le> a \<and> 0 \<le> b \<and> a + b = 100" by (rule bspec)
    then obtain a b where "allocation_a p = Some a" "allocation_b p = Some b" "0 \<le> a" "0 \<le> b"
      "a + b = 100" by blast
    then show ?thesis by simp
  qed
  have c: "calculate_payouts ps = Inr r"
    unfolding r_def pay_def q_def B_def t_def n_def
    using calculate_payouts_eq[OF ne al'] by (simp only: Let_def)
  have t0: "0 \<le> t" unfolding t_def by (rule sum_list_nonneg) (use rng in auto)
  have "t \<le> (\<Sum>p\<leftarrow>ps. 100)" unfolding t_def by (rule sum_list_mono) (use rng in auto)
  then have t1: "t \<le> 100 * int n" by (simp add: sum_list_triv n_def)
  have nl: "int n < 2 ^ 44" using len by (simp add: n_def)
  have t51: "\<bar>t\<bar> < 2 ^ 51" using t0 t1 nl by simp
  then have t53: "\<bar>t\<bar> < 2 ^ 53" by simp
  have ft: "float_of_int t = of_int t" using t53 by (rule float_of_int_exact)
  have Be: "B = of_int t * 3 / 2" unfolding B_def using t51 by (rule boosted_exact)
  have "\<bar>int n\<bar> < 2 ^ 53" using nl by simp
  then have fn: "float_of_int (int n) = of_int (int n)" by (rule float_of_int_exact)
  have n0: "(0::rat) < of_int (int n)" using ne by (simp add: n_def)
  have Bn: "0 \<le> B" unfolding Be using t0 by simp
  have q0: "0 \<le> q" unfolding q_def fn using Bn n0 by simp
  have "(of_int t :: rat) \<le> of_int (100 * int n)" using t1 by (simp only: of_int_le_iff)
  then have "B \<le> 150 * (of_int (int n) :: rat)" unfolding Be by simp
  then have q1: "q \<le> 150" unfolding q_def fn using n0 by (simp add: divide_le_eq)
  have nq: "of_nat n * q = B" unfolding q_def fn using n0 by simp
  have each: "\<bar>pay p - (of_int (the (allocation_a p)) + q)\<bar> \<le> 1 / 200 + 1 / 2 ^ 43"
    if "p \<in> set ps" for p
    unfolding pay_def using rng[OF that] q0 q1 by (intro payout_error) simp_all
  have s1: "(\<Sum>po\<leftarrow>players r. payout_pp po) = (\<Sum>p\<leftarrow>ps. pay p)"
    using sel(3) by simp
  have s2: "of_int (\<Sum>p\<leftarrow>ps. the (allocation_a p)) + B
                   = (\<Sum>p\<leftarrow>ps. of_int (the (allocation_a p)) + q)"
  proof -
    have "(\<Sum>p\<leftarrow>ps. of_int (the (allocation_a p)) + q)
            = (\<Sum>p\<leftarrow>ps. (of_int (the (allocation_a p)) :: rat)) + (\<Sum>p\<leftarrow>ps. q)"
      by (rule sum_list_addf)
    also have "(\<Sum>p\<leftarrow>ps. (of_int (the (allocation_a p)) :: rat))
                 = of_int (\<Sum>p\<leftarrow>ps. the (allocation_a p))"
      using sum_list_of_int[of "map (\<lambda>p. the (allocation_a p)) ps"] by (simp add: o_def)
    also have "(\<Sum>p\<leftarrow>ps. q) = of_nat n * q" unfolding n_def by (rule sum_list_triv)
    finally show ?thesis using nq by simp
  qed
  have "(\<Sum>po\<leftarrow>players r. payout_pp po) -
              (of_int (\<Sum>p\<leftarrow>ps. the (allocation_a p)) + boosted_pool r)
            = (\<Sum>p\<leftarrow>ps. pay p - (of_int (the (allocation_a p)) + q))"
    unfolding s1 sel(2) s2 by (rule sum_list_subtractf[symmetric])
  also have "\<bar>\<dots>\<bar> \<le> (\<Sum>p\<leftarrow>ps. \<bar>pay p - (of_int (the (allocation_a p)) + q)\<bar>)"
    using sum_list_abs[of "map (\<lambda>p. pay p - (of_int (the (allocation_a p)) + q)) ps"]
    by (simp add: o_def)
  also have "\<dots> \<le> (\<Sum>p\<leftarrow>ps. 1 / 200 + 1 / 2 ^ 43)"
    by (rule sum_list_mono) (rule each)
  also have "\<dots> = of_nat n * (1 / 200 + 1 / 2 ^ 43)" unfolding n_def by (rule sum_list_triv)
  finally have f2: "\<bar>(\<Sum>po\<leftarrow>players r. payout_pp po) -
              (of_int (\<Sum>p\<leftarrow>ps. the (allocation_a p)) + boosted_pool r)\<bar>
             \<le> of_nat (length ps) * (1 / 200 + 1 / 2 ^ 43)" unfolding n_def .
  have f3: "total_b_pool r = of_int (\<Sum>p\<leftarrow>ps. the (allocation_b p))"
    unfolding sel(1) ft by (simp only: t_def)
  have f4: "boosted_pool r = py_round (float_mul (total_b_pool r) (3 / 2)) 2"
    unfolding sel by (simp only: B_def)
  have f6: "boosted_pool r = total_b_pool r * 3 / 2" unfolding sel ft by (rule Be)
  have k1: "total_b_pool r * (3 / 2) * 100 = of_int (150 * t)" unfolding sel ft by simp
  have k2: "nearest_even (of_int (150 * t)) (150 * t)" by (simp add: nearest_even_def)
  have k3: "boosted_pool r = fl (of_int (150 * t) / 100)"
  proof -
    have "\<bar>3 * t\<bar> < 2 ^ 53" using t51 by simp
    then have "fl (of_int (3 * t) / 2 ^ 1) = of_int (3 * t) / 2 ^ 1" by (rule fl_exact)
    moreover have "(of_int (150 * t) / 100 :: rat) = of_int (3 * t) / 2 ^ 1" by simp
    moreover have "B = of_int (3 * t) / 2 ^ 1" unfolding Be by simp
    ultimately show ?thesis unfolding sel by (simp only:)
  qed
  have f5: "\<exists>k. nearest_even (total_b_pool r * (3 / 2) * 100) k \<and>
                boosted_pool r = fl (of_int k / 100)"
    unfolding k1 using k2 k3 by blast
  show ?thesis
    apply (rule exI[of _ r])
    apply (intro conjI)
         apply (rule c)
        apply (rule f2)
       apply (rule f3)
      apply (rule f4)
     apply (rule f5)
    apply (rule f6)
    done
qed

text \<open>
  Four players with allocations (100, 0), (100, 0), (100, 0) and (99, 1): the payouts are
  100.38, 100.38, 100.38 and 99.38, as floats, and their sum exceeds 399 + 1.5 by
  almost 0.02, that is 0.005 per player.
\<close>

theorem payout_sum_witness:
  "\<exists>r. calculate_payouts four_up = Inr r \<and> total_b_pool r = 1 \<and> boosted_pool r = 3 / 2 \<and>
       (\<Sum>po\<leftarrow>players r. payout_pp po) = 880752794313687 / 2199023255552 \<and>
       (\<Sum>p\<leftarrow>four_up. the (allocation_a p)) = 399 \<and>
       \<bar>880752794313687 / 2199023255552 - (399 + 3 / 2)\<bar> = (43980465111 / 2199023255552 :: rat) \<and>
       (43980465111 / 2199023255552 :: rat) \<le> 4 * (1 / 200 + 1 / 2 ^ 43) \<and>
       (19 / 1000 :: rat) < 43980465111 / 2199023255552"
proof -
  have h1: "four_up \<noteq> []" by (simp add: four_up_def)
  have h2: "\<forall>p\<in>set four_up. \<exists>a b. allocation_a p = Some a \<and> allocation_b p = Some b \<and>
                           0 \<le> a \<and> 0 \<le> b \<and> a + b = 100"
    by (simp add: four_up_def make_player_def)
  have h3: "length four_up < 2 ^ 44" by (simp add: four_up_def)
  from payout_sum [OF h1 h2 h3]
  obtain r where r: "calculate_payouts four_up = Inr r" by blast
  have u: "calculate_payouts four_up =
             Inr \<lparr>total_b_pool = 1, boosted_pool = 3 / 2,
                  players = [\<lparr>player_id = ''q1'', display_name_pp = ''Player 1'',
                                payout_pp = 882951817569239 / 8796093022208\<rparr>,
                             \<lparr>player_id = ''q2'', display_name_pp = ''Player 2'',
                                payout_pp = 882951817569239 / 8796093022208\<rparr>,
                             \<lparr>player_id = ''q3'', display_name_pp = ''Player 3'',
                                payout_pp = 882951817569239 / 8796093022208\<rparr>,
                             \<lparr>player_id = ''q4'', display_name_pp = ''Player 4'',
                                payout_pp = 874155724547031 / 8796093022208\<rparr>]\<rparr>"
    by code_simp
  have e: "r = \<lparr>total_b_pool = 1, boosted_pool = 3 / 2,
                  players = [\<lparr>player_id = ''q1'', display_name_pp = ''Player 1'',
                                payout_pp = 882951817569239 / 8796093022208\<rparr>,
                             \<lparr>player_id = ''q2'', display_name_pp = ''Player 2'',
                                payout_pp = 882951817569239 / 8796093022208\<rparr>,
                             \<lparr>player_id = ''q3'', display_name_pp = ''Player 3'',
                                payout_pp = 882951817569239 / 8796093022208\<rparr>,
                             \<lparr>player_id = ''q4'', display_name_pp = ''Player 4'',
                                payout_pp = 874155724547031 / 8796093022208\<rparr>]\<rparr>"
    using r u by simp
  have g1: "total_b_pool r = 1" unfolding e by simp
  have g2: "boosted_pool r = 3 / 2" unfolding e by simp
  have g3: "(\<Sum>po\<leftarrow>players r. payout_pp po) = 880752794313687 / 2199023255552"
    unfolding e by simp
  have v1: "(\<Sum>p\<leftarrow>four_up. the (allocation_a p)) = 399"
    by (simp add: four_up_def make_player_def)
  have v2: "\<bar>880752794313687 / 2199023255552 - (399 + 3 / 2)\<bar>
              = (43980465111 / 2199023255552 :: rat)" by simp
  have v3: "(43980465111 / 2199023255552 :: rat) \<le> 4 * (1 / 200 + 1 / 2 ^ 43)" by simp
  have v4: "(19 / 1000 :: rat) < 43980465111 / 2199023255552" by simp
  show ?thesis
    by (rule exI[of _ r], intro conjI) (rule r g1 g2 g3 v1 v2 v3 v4)+
qed

section \<open>Properties of the event broker\<close>

lemma put_all_distinct:
  "distinct subs \<Longrightarrow>
     put_all subs m qs q = (if q \<in> set subs then qs q @ [m] else qs q)"
  by (induction subs arbitrary: qs) auto

lemma broker_okI:
  assumes "\<And>c subs. subscribers b c = Some subs \<Longrightarrow> distinct subs"
    and "\<And>c subs q. subscribers b c = Some subs \<Longrightarrow> q \<in> set subs \<Longrightarrow> streams b q = Some c"
    and "\<And>q c. streams b q = Some c \<Longrightarrow> q < allocated b"
  shows "broker_ok b"
  using assms unfolding broker_ok_def by blast

lemma broker_okD:
  assumes "broker_ok b"
  shows "subscribers b c = Some subs \<Longrightarrow> distinct subs"
    and "subscribers b c = Some subs \<Longrightarrow> q \<in> set subs \<Longrightarrow> streams b q = Some c"
    and "streams b q = Some c \<Longrightarrow> q < allocated b"
  using assms unfolding broker_ok_def by blast+

lemma broker_ok_empty: "broker_ok empty_broker"
  by (simp add: broker_ok_def empty_broker_def)

lemma broker_ok_registered:
  assumes "broker_ok b"
  shows "distinct (registered b c)" and "q \<in> set (registered b c) \<Longrightarrow> streams b q = Some c"
proof -
  show "distinct (registered b c)"
    using broker_okD(1)[OF assms, of c] by (cases "subscribers b c") (simp_all add: registered_def)
  show "q \<in> set (registered b c) \<Longrightarrow> streams b q = Some c"
    using broker_okD(2)[OF assms, of c _ q] by (cases "subscribers b c") (simp_all add: registered_def)
qed

lemma registered_Some: "subscribers b c = Some subs \<Longrightarrow> registered b c = subs"
  by (simp add: registered_def)

lemma allocated_fresh:
  assumes "broker_ok b"
  shows "streams b (allocated b) = None" and "allocated b \<notin> set (registered b c)"
proof -
  show f: "streams b (allocated b) = None"
    using broker_okD(3)[OF assms, of "allocated b"] by (cases "streams b (allocated b)") auto
  show "allocated b \<notin> set (registered b c)"
    using broker_ok_registered(2)[OF assms, of "allocated b" c] f by auto
qed

lemma subscribe_eq:
  assumes "broker_ok b"
  shows "subscribe b c =
           (allocated b,
            b\<lparr>subscribers := (subscribers b)(c \<mapsto> registered b c @ [allocated b]),
              queues := (queues b)(allocated b := []),
              streams := (streams b)(allocated b \<mapsto> c),
              allocated := allocated b + 1\<rparr>)"
  using allocated_fresh(2)[OF assms, of c] by (simp add: subscribe_def Let_def set_add_def)

lemma broker_ok_subscribe:
  assumes ok: "broker_ok b"
  shows "broker_ok (snd (subscribe b c))"
  unfolding subscribe_eq[OF ok] snd_conv
proof (rule broker_okI)
  fix c1 subs
  assume s: "subscribers (b\<lparr>subscribers := (subscribers b)(c \<mapsto> registered b c @ [allocated b]),
              queues := (queues b)(allocated b := []),
              streams := (streams b)(allocated b \<mapsto> c),
              allocated := allocated b + 1\<rparr>) c1 = Some subs"
  show "distinct subs"
  proof (cases "c1 = c")
    case True
    then have "subs = registered b c @ [allocated b]" using s by simp
    then show ?thesis using broker_ok_registered(1)[OF ok, of c] allocated_fresh(2)[OF ok, of c] by simp
  next
    case False
    then have "subscribers b c1 = Some subs" using s by simp
    then show ?thesis by (rule broker_okD(1)[OF ok])
  qed
  fix q assume q: "q \<in> set subs"
  show "streams (b\<lparr>subscribers := (subscribers b)(c \<mapsto> registered b c @ [allocated b]),
              queues := (queues b)(allocated b := []),
              streams := (streams b)(allocated b \<mapsto> c),
              allocated := allocated b + 1\<rparr>) q = Some c1"
  proof (cases "c1 = c")
    case True
    then have "subs = registered b c @ [allocated b]" using s by simp
    then have "q = allocated b \<or> q \<in> set (registered b c)" using q by auto
    then show ?thesis using True broker_ok_registered(2)[OF ok, of q c] by auto
  next
    case False
    then have s1: "subscribers b c1 = Some subs" using s by simp
    then have "q \<noteq> allocated b"
      using allocated_fresh(2)[OF ok, of c1] q by (auto simp: registered_Some)
    then show ?thesis using broker_okD(2)[OF ok s1 q] by simp
  qed
next
  fix q c1
  assume "streams (b\<lparr>subscribers := (subscribers b)(c \<mapsto> registered b c @ [allocated b]),
              queues := (queues b)(allocated b := []),
              streams := (streams b)(allocated b \<mapsto> c),
              allocated := allocated b + 1\<rparr>) q = Some c1"
  then have "q = allocated b \<or> streams b q = Some c1" by (auto split: if_splits)
  then show "q < allocated (b\<lparr>subscribers := (subscribers b)(c \<mapsto> registered b c @ [allocated b]),
              queues := (queues b)(allocated b := []),
              streams := (streams b)(allocated b \<mapsto> c),
              allocated := allocated b + 1\<rparr>)"
    using broker_okD(3)[OF ok, of q c1] by auto
qed

lemma broker_ok_queues [simp]: "broker_ok (b\<lparr>queues := f\<rparr>) = broker_ok b"
  by (simp add: broker_ok_def)

lemma broker_ok_publish:
  "broker_ok b \<Longrightarrow> broker_ok (snd (publish dumps b c event))"
  by (cases "dumps event") (simp_all add: publish_def)

lemma broker_ok_anext:
  "broker_ok b \<Longrightarrow> broker_ok (snd (anext b q))"
  by (cases "streams b q"; cases "queues b q") (simp_all add: anext_def)

text \<open>The \<^verbatim>\<open>finally\<close> block, for a running generator.\<close>

lemma aclose_eq:
  assumes "streams b q = Some c"
  shows "aclose b q =
           b\<lparr>streams := (streams b)(q := None),
             subscribers := (subscribers b)
               (c := (if removeAll q (registered b c) = [] then None
                      else Some (removeAll q (registered b c))))\<rparr>"
proof (cases "subscribers b c")
  case None
  then have "(subscribers b)(c := None) = subscribers b" by auto
  then show ?thesis using assms None by (simp add: aclose_def registered_def)
next
  case (Some subs)
  have "(if subs \<noteq> [] \<and> q \<in> set subs then removeAll q subs else subs) = removeAll q subs"
    by (auto simp: removeAll_id)
  then show ?thesis using assms Some by (simp add: aclose_def Let_def registered_def)
qed

lemma broker_ok_aclose:
  assumes ok: "broker_ok b"
  shows "broker_ok (aclose b q)"
proof (cases "streams b q")
  case None
  then show ?thesis using ok by (simp add: aclose_def)
next
  case (Some c)
  let ?b = "b\<lparr>streams := (streams b)(q := None),
             subscribers := (subscribers b)
               (c := (if removeAll q (registered b c) = [] then None
                      else Some (removeAll q (registered b c))))\<rparr>"
  have sub: "subscribers ?b c1 = Some subs \<Longrightarrow>
               (c1 = c \<and> subs = removeAll q (registered b c)) \<or>
               (c1 \<noteq> c \<and> subscribers b c1 = Some subs)" for c1 subs
    by (auto split: if_splits)
  have "broker_ok ?b"
  proof (rule broker_okI)
    fix c1 subs assume s: "subscribers ?b c1 = Some subs"
    from sub[OF s] show "distinct subs"
      using broker_ok_registered(1)[OF ok, of c] broker_okD(1)[OF ok, of c1 subs]
      by (auto simp: distinct_removeAll)
    fix x assume x: "x \<in> set subs"
    from sub[OF s] show "streams ?b x = Some c1"
    proof (elim disjE conjE)
      assume "c1 = c" "subs = removeAll q (registered b c)"
      then show ?thesis using x broker_ok_registered(2)[OF ok, of x c] by auto
    next
      assume n: "c1 \<noteq> c" and s1: "subscribers b c1 = Some subs"
      have "streams b x = Some c1" by (rule broker_okD(2)[OF ok s1 x])
      then have "x \<noteq> q" using Some n by auto
      then show ?thesis using \<open>streams b x = Some c1\<close> by simp
    qed
  next
    fix x c1 assume "streams ?b x = Some c1"
    then have "streams b x = Some c1" by (auto split: if_splits)
    then show "x < allocated ?b" using broker_okD(3)[OF ok] by simp
  qed
  then show ?thesis by (simp only: aclose_eq[OF Some])
qed

lemma broker_ok_step:
  "broker_ok b \<Longrightarrow> broker_ok (snd (broker_step dumps b x))"
  using broker_ok_subscribe[of b] broker_ok_publish[of b dumps] broker_ok_anext[of b]
    broker_ok_aclose[of b]
  by (cases x) (simp_all add: split_beta)

lemma broker_ok_run:
  "broker_ok b \<Longrightarrow> broker_ok (snd (broker_run dumps b ops))"
proof (induction ops arbitrary: b)
  case Nil then show ?case by simp
next
  case (Cons x xs)
  obtain r b1 where s: "broker_step dumps b x = (r, b1)" by (cases "broker_step dumps b x")
  then have "broker_ok b1" using broker_ok_step[OF Cons.prems, of dumps x] by simp
  from Cons.IH[OF this] s show ?case by (cases "broker_run dumps b1 xs") simp
qed

subsection \<open>One subscription in a sequence of steps\<close>

text \<open>
  \<open>listening b q c\<close>: \<open>q\<close> is the queue of a running generator for room code \<open>c\<close> and is in
  the set of subscribers of \<open>c\<close>.
\<close>

lemma publish_queues:
  assumes ok: "broker_ok b" and d: "dumps event = Inr m"
  shows "publish dumps b c event =
           (Inr (), b\<lparr>queues := (\<lambda>q. if q \<in> set (registered b c) then queues b q @ [m]
                                       else queues b q)\<rparr>)"
proof -
  have "put_all (registered b c) m (queues b) =
          (\<lambda>q. if q \<in> set (registered b c) then queues b q @ [m] else queues b q)"
    using put_all_distinct[OF broker_ok_registered(1)[OF ok, of c]] by auto
  then show ?thesis using d by (simp add: publish_def)
qed

lemma publish_fails: "dumps event = Inl e \<Longrightarrow> publish dumps b c event = (Inl e, b)"
  by (simp add: publish_def)

lemma publish_no_subscribers:
  "registered b c = [] \<Longrightarrow> snd (publish dumps b c event) = b"
  by (cases "dumps event") (simp_all add: publish_def)

lemma yielded_other:
  "\<forall>m. (x, r) \<noteq> (Next q, Yielded (Inr (Some m))) \<Longrightarrow>
     yielded q ((x, r) # tr) = yielded q tr"
  by (cases "(q, (x, r) # tr)" rule: yielded.cases) auto

lemma listening_step:
  assumes ok: "broker_ok b" and st: "streams b q = Some c" and rg: "q \<in> set (registered b c)"
    and nc: "x \<noteq> Close q" and sp: "broker_step dumps b x = (r, b1)"
  shows "streams b1 q = Some c \<and> q \<in> set (registered b1 c) \<and>
         queues b q @ sent dumps c [(x, r)] = yielded q [(x, r)] @ queues b1 q"
proof (cases x)
  case (Subscribe c1)
  have ne: "q \<noteq> allocated b" using allocated_fresh(1)[OF ok] st by auto
  have b1: "b1 = snd (subscribe b c1)" "r = Subscribed (fst (subscribe b c1))"
    using sp Subscribe by (auto simp: split_beta)
  show ?thesis unfolding b1 subscribe_eq[OF ok] using st rg ne Subscribe
    by (auto simp: registered_def)
next
  case (Publish c1 event)
  show ?thesis
  proof (cases "dumps event")
    case (Inl e)
    then have "b1 = b" "r = Published (Inl e)" using sp Publish by (simp_all add: publish_def)
    then show ?thesis using st rg Publish by simp
  next
    case (Inr m)
    have b1: "b1 = b\<lparr>queues := (\<lambda>q. if q \<in> set (registered b c1) then queues b q @ [m]
                                       else queues b q)\<rparr>" "r = Published (Inr ())"
      using sp Publish publish_queues[of b dumps event m c1, OF ok Inr] by simp_all
    have "q \<in> set (registered b c1) \<longleftrightarrow> c1 = c"
      using broker_ok_registered(2)[OF ok, of q c1] st rg by auto
    then show ?thesis unfolding b1 using st rg Publish Inr by (auto simp: registered_def)
  qed
next
  case (Next q1)
  show ?thesis
  proof (cases "q1 = q")
    case True
    show ?thesis
    proof (cases "queues b q")
      case Nil
      then have "b1 = b" "r = Yielded (Inr None)" using sp Next True st by (simp_all add: anext_def)
      then show ?thesis using st rg Next Nil by simp
    next
      case (Cons m ms)
      then have "b1 = b\<lparr>queues := (queues b)(q := ms)\<rparr>" "r = Yielded (Inr (Some m))"
        using sp Next True st by (simp_all add: anext_def)
      then show ?thesis using st rg Next Cons True by (simp add: registered_def)
    qed
  next
    case False
    have "streams b1 = streams b \<and> subscribers b1 = subscribers b \<and> queues b1 q = queues b q"
      using sp Next False
      by (cases "streams b q1"; cases "queues b q1") (auto simp: anext_def)
    moreover have "yielded q [(x, r)] = []"
      using Next False by (simp add: yielded_other)
    ultimately show ?thesis using st rg Next by (simp add: registered_def)
  qed
next
  case (Close q1)
  then have ne: "q1 \<noteq> q" using nc by simp
  have b1: "b1 = aclose b q1" using sp Close by simp
  show ?thesis
  proof (cases "streams b q1")
    case None
    then have "b1 = b" using b1 by (simp add: aclose_def)
    then show ?thesis using st rg Close by simp
  next
    case (Some c1)
    have nonempty: "removeAll q1 (registered b c) \<noteq> []"
    proof
      assume e: "removeAll q1 (registered b c) = []"
      have "q \<in> set (removeAll q1 (registered b c))" using rg ne by simp
      then show False unfolding e by simp
    qed
    have s1: "streams b1 q = Some c" "queues b1 = queues b"
      unfolding b1 aclose_eq[OF Some] using st ne by simp_all
    have "q \<in> set (registered b1 c)"
    proof (cases "c1 = c")
      case True
      have "subscribers b1 c = Some (removeAll q1 (registered b c))"
        unfolding b1 aclose_eq[OF Some] using True nonempty by simp
      then have "registered b1 c = removeAll q1 (registered b c)" by (rule registered_Some)
      then show ?thesis using rg ne by simp
    next
      case False
      have "subscribers b1 c = subscribers b c"
        unfolding b1 aclose_eq[OF Some] using False by simp
      then have "registered b1 c = registered b c" by (simp add: registered_def)
      then show ?thesis using rg by simp
    qed
    then show ?thesis using s1 Close by simp
  qed
qed

lemma yielded_Cons: "yielded q (xr # tr) = yielded q [xr] @ yielded q tr"
  by (cases "(q, xr # tr)" rule: yielded.cases) auto

lemma sent_Cons: "sent dumps c (xr # tr) = sent dumps c [xr] @ sent dumps c tr"
  by (cases "(dumps, c, xr # tr)" rule: sent.cases) (auto split: sum.splits)

lemma listening_run:
  assumes "broker_ok b" "streams b q = Some c" "q \<in> set (registered b c)"
    and "Close q \<notin> set ops"
  shows "queues b q @ sent dumps c (fst (broker_run dumps b ops))
           = yielded q (fst (broker_run dumps b ops)) @ queues (snd (broker_run dumps b ops)) q"
  using assms
proof (induction ops arbitrary: b)
  case Nil
  then show ?case by simp
next
  case (Cons x xs)
  obtain r b1 where s: "broker_step dumps b x = (r, b1)" by (cases "broker_step dumps b x")
  obtain tr b2 where t: "broker_run dumps b1 xs = (tr, b2)" by (cases "broker_run dumps b1 xs")
  have nc: "x \<noteq> Close q" "Close q \<notin> set xs" using Cons.prems(4) by auto
  have ok1: "broker_ok b1" using broker_ok_step[OF Cons.prems(1), of dumps x] s by simp
  from listening_step[OF Cons.prems(1,2,3) nc(1) s]
  have l: "streams b1 q = Some c" "q \<in> set (registered b1 c)"
    "queues b q @ sent dumps c [(x, r)] = yielded q [(x, r)] @ queues b1 q" by auto
  from Cons.IH[OF ok1 l(1,2) nc(2)] t
  have ih: "queues b1 q @ sent dumps c tr = yielded q tr @ queues b2 q" by simp
  have "queues b q @ sent dumps c ((x, r) # tr) = (queues b q @ sent dumps c [(x, r)]) @ sent dumps c tr"
    using sent_Cons[of dumps c "(x, r)" tr] by simp
  also have "\<dots> = yielded q [(x, r)] @ (queues b1 q @ sent dumps c tr)" unfolding l(3) by simp
  also have "\<dots> = yielded q ((x, r) # tr) @ queues b2 q"
    unfolding ih using yielded_Cons[of q "(x, r)" tr] by simp
  finally show ?case using s t by simp
qed

text \<open>
  C9. Let \<open>b\<close> be the state of the broker after any sequence of steps: subscriptions that
  start, publications, subscriptions that yield a message, and subscriptions that are
  closed. The set of subscribers of room code \<open>c\<close> holds no queue twice, and each of its
  queues belongs to a running subscription for \<open>c\<close>. A \<^verbatim>\<open>publish\<close> to \<open>c\<close> whose event can be
  serialized to \<open>m\<close> appends \<open>m\<close>, once, to the queue of each of them, leaves every other
  queue as it is, and changes nothing else; with no subscriber for \<open>c\<close> it changes
  nothing at all. A subscription that starts now for \<open>c\<close> gets a new, empty queue \<open>q\<close> and
  is a subscriber of \<open>c\<close>; and after any further steps that do not close it, the messages
  it has yielded, followed by those still in its queue, are exactly the messages
  published to \<open>c\<close> in these steps, in the order of the publications.
\<close>

theorem broker_fan_out:
  assumes "b = snd (broker_run dumps empty_broker ops)"
  shows "distinct (registered b c) \<and>
         (\<forall>q\<in>set (registered b c). streams b q = Some c) \<and>
         (dumps event = Inr m \<longrightarrow>
            (\<exists>b1. publish dumps b c event = (Inr (), b1) \<and>
                  subscribers b1 = subscribers b \<and> streams b1 = streams b \<and>
                  allocated b1 = allocated b \<and>
                  (\<forall>q. queues b1 q = (if q \<in> set (registered b c) then queues b q @ [m]
                                      else queues b q)))) \<and>
         (registered b c = [] \<longrightarrow> snd (publish dumps b c event) = b) \<and>
         fst (subscribe b c) = allocated b \<and>
         allocated b \<notin> set (registered b c) \<and>
         registered (snd (subscribe b c)) c = registered b c @ [allocated b] \<and>
         queues (snd (subscribe b c)) (allocated b) = [] \<and>
         (Close (allocated b) \<notin> set later \<longrightarrow>
            yielded (allocated b) (fst (broker_run dumps (snd (subscribe b c)) later)) @
            queues (snd (broker_run dumps (snd (subscribe b c)) later)) (allocated b)
              = sent dumps c (fst (broker_run dumps (snd (subscribe b c)) later)))"
proof -
  have ok: "broker_ok b" unfolding assms by (rule broker_ok_run[OF broker_ok_empty])
  have 1: "distinct (registered b c)" by (rule broker_ok_registered(1)[OF ok])
  have 2: "\<forall>q\<in>set (registered b c). streams b q = Some c"
    using broker_ok_registered(2)[OF ok] by blast
  have 3: "dumps event = Inr m \<longrightarrow>
            (\<exists>b1. publish dumps b c event = (Inr (), b1) \<and>
                  subscribers b1 = subscribers b \<and> streams b1 = streams b \<and>
                  allocated b1 = allocated b \<and>
                  (\<forall>q. queues b1 q = (if q \<in> set (registered b c) then queues b q @ [m]
                                      else queues b q)))"
  proof
    assume d: "dumps event = Inr m"
    show "\<exists>b1. publish dumps b c event = (Inr (), b1) \<and>
                  subscribers b1 = subscribers b \<and> streams b1 = streams b \<and>
                  allocated b1 = allocated b \<and>
                  (\<forall>q. queues b1 q = (if q \<in> set (registered b c) then queues b q @ [m]
                                      else queues b q))"
      unfolding publish_queues[of b dumps event m c, OF ok d] by simp
  qed
  have 4: "registered b c = [] \<longrightarrow> snd (publish dumps b c event) = b"
    by (intro impI) (rule publish_no_subscribers)
  note se = subscribe_eq[OF ok, of c]
  have 5: "fst (subscribe b c) = allocated b" unfolding se by simp
  have 6: "allocated b \<notin> set (registered b c)" by (rule allocated_fresh(2)[OF ok])
  have 7: "registered (snd (subscribe b c)) c = registered b c @ [allocated b]"
    unfolding se by (simp add: registered_def)
  have 8: "queues (snd (subscribe b c)) (allocated b) = []" unfolding se by simp
  have 9: "Close (allocated b) \<notin> set later \<longrightarrow>
            yielded (allocated b) (fst (broker_run dumps (snd (subscribe b c)) later)) @
            queues (snd (broker_run dumps (snd (subscribe b c)) later)) (allocated b)
              = sent dumps c (fst (broker_run dumps (snd (subscribe b c)) later))"
  proof
    assume nc: "Close (allocated b) \<notin> set later"
    have ok0: "broker_ok (snd (subscribe b c))" by (rule broker_ok_subscribe[OF ok])
    have st: "streams (snd (subscribe b c)) (allocated b) = Some c" unfolding se by simp
    have rg: "allocated b \<in> set (registered (snd (subscribe b c)) c)" unfolding 7 by simp
    from listening_run[OF ok0 st rg nc, of dumps] 8
    show "yielded (allocated b) (fst (broker_run dumps (snd (subscribe b c)) later)) @
            queues (snd (broker_run dumps (snd (subscribe b c)) later)) (allocated b)
              = sent dumps c (fst (broker_run dumps (snd (subscribe b c)) later))"
      by simp
  qed
  show ?thesis by (intro conjI) (rule 1 2 3 4 5 6 7 8 9)+
qed

text \<open>
  Two listeners of room \<open>ROOM01\<close> (queues 0 and 2) and one of room \<open>ROOM02\<close> (queue 1).
  The event published before anyone listens reaches no queue, and the event that cannot
  be serialized reaches none either. Listener 0 yields the first message and is closed
  before the last event; listener 2, from its start, gets the three messages of its
  room in the order of publication.
\<close>

theorem broker_fan_out_witness:
  "fst (broker_run quote empty_broker broker_ops) =
     [(Publish ''ROOM01'' ''nobody listens'', Published (Inr ())),
      (Subscribe ''ROOM01'', Subscribed 0),
      (Subscribe ''ROOM02'', Subscribed 1),
      (Subscribe ''ROOM01'', Subscribed 2),
      (Publish ''ROOM01'' ''joined'', Published (Inr ())),
      (Publish ''ROOM02'' ''other'', Published (Inr ())),
      (Publish ''ROOM01'' ''cyclic'', Published (Inl TypeError)),
      (Publish ''ROOM01'' ''submitted'', Published (Inr ())),
      (Next 0, Yielded (Inr (Some ''<joined>''))),
      (Close 0, Closed),
      (Publish ''ROOM01'' ''results'', Published (Inr ()))] \<and>
   queues (snd (broker_run quote empty_broker broker_ops)) 0 = [''<submitted>''] \<and>
   queues (snd (broker_run quote empty_broker broker_ops)) 1 = [''<other>''] \<and>
   queues (snd (broker_run quote empty_broker broker_ops)) 2 =
     [''<joined>'', ''<submitted>'', ''<results>''] \<and>
   registered (snd (broker_run quote empty_broker broker_ops)) ''ROOM01'' = [2] \<and>
   registered (snd (broker_run quote empty_broker broker_ops)) ''ROOM02'' = [1] \<and>
   allocated (snd (broker_run quote empty_broker (take 3 broker_ops))) = 2 \<and>
   Close 2 \<notin> set (drop 4 broker_ops) \<and>
   yielded 2 (fst (broker_run quote
       (snd (subscribe (snd (broker_run quote empty_broker (take 3 broker_ops))) ''ROOM01''))
       (drop 4 broker_ops))) @
   queues (snd (broker_run quote
       (snd (subscribe (snd (broker_run quote empty_broker (take 3 broker_ops))) ''ROOM01''))
       (drop 4 broker_ops))) 2
     = sent quote ''ROOM01'' (fst (broker_run quote
       (snd (subscribe (snd (broker_run quote empty_broker (take 3 broker_ops))) ''ROOM01''))
       (drop 4 broker_ops))) \<and>
   sent quote ''ROOM01'' (fst (broker_run quote
       (snd (subscribe (snd (broker_run quote empty_broker (take 3 broker_ops))) ''ROOM01''))
       (drop 4 broker_ops))) = [''<joined>'', ''<submitted>'', ''<results>'']"
proof -
  note t = broker_fan_out [where dumps = quote and ops = "take 3 broker_ops"
      and b = "snd (broker_run quote empty_broker (take 3 broker_ops))"
      and c = "''ROOM01''" and later = "drop 4 broker_ops"
      and event = "''joined''" and m = "''<joined>''", OF refl]
  note t9 = t [THEN conjunct2, THEN conjunct2, THEN conjunct2, THEN conjunct2, THEN conjunct2,
      THEN conjunct2, THEN conjunct2, THEN conjunct2]
  have a: "allocated (snd (broker_run quote empty_broker (take 3 broker_ops))) = 2" by code_simp
  have nc: "Close 2 \<notin> set (drop 4 broker_ops)" by code_simp
  have w: "yielded 2 (fst (broker_run quote
       (snd (subscribe (snd (broker_run quote empty_broker (take 3 broker_ops))) ''ROOM01''))
       (drop 4 broker_ops))) @
   queues (snd (broker_run quote
       (snd (subscribe (snd (broker_run quote empty_broker (take 3 broker_ops))) ''ROOM01''))
       (drop 4 broker_ops))) 2
     = sent quote ''ROOM01'' (fst (broker_run quote
       (snd (subscribe (snd (broker_run quote empty_broker (take 3 broker_ops))) ''ROOM01''))
       (drop 4 broker_ops)))"
    by (rule mp [OF t9 [unfolded a] nc])
  have v: "fst (broker_run quote empty_broker broker_ops) =
     [(Publish ''ROOM01'' ''nobody listens'', Published (Inr ())),
      (Subscribe ''ROOM01'', Subscribed 0),
      (Subscribe ''ROOM02'', Subscribed 1),
      (Subscribe ''ROOM01'', Subscribed 2),
      (Publish ''ROOM01'' ''joined'', Published (Inr ())),
      (Publish ''ROOM02'' ''other'', Published (Inr ())),
      (Publish ''ROOM01'' ''cyclic'', Published (Inl TypeError)),
      (Publish ''ROOM01'' ''submitted'', Published (Inr ())),
      (Next 0, Yielded (Inr (Some ''<joined>''))),
      (Close 0, Closed),
      (Publish ''ROOM01'' ''results'', Published (Inr ()))]"
    "queues (snd (broker_run quote empty_broker broker_ops)) 0 = [''<submitted>'']"
    "queues (snd (broker_run quote empty_broker broker_ops)) 1 = [''<other>'']"
    "queues (snd (broker_run quote empty_broker broker_ops)) 2 =
       [''<joined>'', ''<submitted>'', ''<results>'']"
    "registered (snd (broker_run quote empty_broker broker_ops)) ''ROOM01'' = [2]"
    "registered (snd (broker_run quote empty_broker broker_ops)) ''ROOM02'' = [1]"
    "sent quote ''ROOM01'' (fst (broker_run quote
       (snd (subscribe (snd (broker_run quote empty_broker (take 3 broker_ops))) ''ROOM01''))
       (drop 4 broker_ops))) = [''<joined>'', ''<submitted>'', ''<results>'']"
    by code_simp+
  show ?thesis by (intro conjI) (rule v a nc w)+
qed

end
